theory Spec2Isabelle
  imports Main "HOL-Library.Multiset" "HOL-Library.Monad_Syntax"
begin

section \<open>Rows, tables and the iterator interface\<close>

text \<open>
  The operators of \<^verbatim>\<open>a6/Operators.cpp\<close> pull rows through the abstract class
  \<^verbatim>\<open>Iterator\<close> (\<^verbatim>\<open>n_columns\<close>, \<^verbatim>\<open>open\<close>, \<^verbatim>\<open>next\<close>, \<^verbatim>\<open>close\<close>). A \<^verbatim>\<open>Row*\<close> is a
  \<open>'v Row option\<close>: \<open>None\<close> is \<^verbatim>\<open>NULL\<close>, the end-of-stream sentinel. Column values are
  a type parameter \<open>'v\<close>; equality is \<^verbatim>\<open>==\<close>, and where the code orders values
  (\<^verbatim>\<open>>=\<close>, \<^verbatim>\<open><=\<close>, the comparator of Sort) \<open>'v\<close> is a linear order.

  A call that does not return normally has the result \<open>None\<close> of the outer
  \<open>option\<close>: a column read outside a row, a cursor dereferenced outside its
  container, or a loop that runs forever. Every statement below that a call returns
  something is therefore proved as \<open>\<dots> = Some \<dots>\<close>.
\<close>

type_synonym 'v Row = "'v list"

text \<open>
  Modelled from the spec: \<^verbatim>\<open>Row.h\<close> is not part of the sources. A row is an ordered
  value sequence with \<^verbatim>\<open>size()\<close> and \<^verbatim>\<open>at(i)\<close>; \<^verbatim>\<open>at\<close> has a value only for
  \<open>i < size()\<close>.
\<close>

definition at :: "'v Row \<Rightarrow> nat \<Rightarrow> 'v option" where
  "at row i = (if i < length row then Some (row ! i) else None)"

text \<open>
  Modelled from the spec: \<^verbatim>\<open>Table.h\<close> is not part of the sources. A table has column
  metadata (\<^verbatim>\<open>columns()\<close>) and a collection of rows in insertion order (\<^verbatim>\<open>rows()\<close>).
\<close>

record 'v Table =
  tbl_columns :: "string list"
  tbl_rows :: "'v Row list"

text \<open>
  The virtual methods of \<^verbatim>\<open>Iterator\<close>, for objects whose fields are a value of type
  \<open>'s\<close>. An operator that owns a child \<^verbatim>\<open>Iterator*\<close> holds the child's fields and calls the
  child through such a method table.
\<close>

record ('s, 'v) Iterator =
  it_n_columns :: "'s \<Rightarrow> nat"
  it_open :: "'s \<Rightarrow> 's option"
  it_next :: "'s \<Rightarrow> ('v Row option \<times> 's) option"
  it_close :: "'s \<Rightarrow> 's"

text \<open>
  The consumer's loop: call \<^verbatim>\<open>next\<close> until it returns \<^verbatim>\<open>NULL\<close>, collecting the rows.
  \<open>run\<close> is \<^verbatim>\<open>open\<close> followed by that loop.
\<close>

partial_function (option) drain :: "('s, 'v) Iterator \<Rightarrow> 's \<Rightarrow> ('v Row list \<times> 's) option" where
  "drain I s =
     Option.bind (it_next I s) (\<lambda>(row, s').
       case row of
         None \<Rightarrow> Some ([], s')
       | Some r \<Rightarrow> Option.bind (drain I s') (\<lambda>(rs, s''). Some (r # rs, s'')))"

declare drain.simps [code]

definition run :: "('s, 'v) Iterator \<Rightarrow> 's \<Rightarrow> ('v Row list \<times> 's) option" where
  "run I s = Option.bind (it_open I s) (drain I)"

text \<open>
  The counting loop \<^verbatim>\<open>for (unsigned i = i0; i < n; i++) body\<close> over an accumulator; the
  body may fail to return.
\<close>

function for_upto :: "nat \<Rightarrow> nat \<Rightarrow> (nat \<Rightarrow> 'a \<Rightarrow> 'a option) \<Rightarrow> 'a \<Rightarrow> 'a option" where
  "for_upto i n body acc =
     (if i < n then
        (case body i acc of None \<Rightarrow> None | Some acc' \<Rightarrow> for_upto (i + 1) n body acc')
      else Some acc)"
  by pat_completeness auto
termination
  by (relation "measure (\<lambda>(i, n, body, acc). n - i)") auto

declare for_upto.simps [simp del]

text \<open>
  Modelled from the spec: \<^verbatim>\<open>ColumnSelector.h\<close> is not part of the sources. A column
  selector holds the source row width and an ordered list of selected column positions;
  positions must be below the source width and \<^verbatim>\<open>n_selected()\<close> is at most the source
  width, and construction fails otherwise. \<^verbatim>\<open>selected(i)\<close> is the \<open>i\<close>-th selected
  position and has a value only for \<open>i < n_selected()\<close>.
\<close>

record ColumnSelector =
  cs_n_columns :: nat
  cs_selected :: "nat list"

definition ColumnSelector_new :: "nat \<Rightarrow> nat list \<Rightarrow> ColumnSelector option" where
  "ColumnSelector_new n_columns columns =
     (if length columns \<le> n_columns \<and> (\<forall>c \<in> set columns. c < n_columns)
      then Some \<lparr>cs_n_columns = n_columns, cs_selected = columns\<rparr>
      else None)"

definition n_selected :: "ColumnSelector \<Rightarrow> nat" where
  "n_selected cs = length (cs_selected cs)"

definition selected :: "ColumnSelector \<Rightarrow> nat \<Rightarrow> nat option" where
  "selected cs i = (if i < length (cs_selected cs) then Some (cs_selected cs ! i) else None)"

subsection \<open>TableIterator\<close>

text \<open>
  \<^verbatim>\<open>_input\<close> and \<^verbatim>\<open>_end\<close> are positions in \<^verbatim>\<open>_table->rows()\<close>: \<^verbatim>\<open>begin()\<close> is 0 and
  \<^verbatim>\<open>end()\<close> is the number of rows.
\<close>

record 'v TableIterator =
  ti_table :: "'v Table"
  ti_input :: nat
  ti_end :: nat

definition TableIterator_new :: "'v Table \<Rightarrow> 'v TableIterator" where
  "TableIterator_new table =
     \<lparr>ti_table = table, ti_input = 0, ti_end = length (tbl_rows table)\<rparr>"

definition TableIterator_n_columns :: "'v TableIterator \<Rightarrow> nat" where
  "TableIterator_n_columns s = length (tbl_columns (ti_table s))"

definition TableIterator_open :: "'v TableIterator \<Rightarrow> 'v TableIterator option" where
  "TableIterator_open s = Some (s\<lparr>ti_input := 0\<rparr>)"

definition TableIterator_next :: "'v TableIterator \<Rightarrow> ('v Row option \<times> 'v TableIterator) option" where
  "TableIterator_next s =
     (if ti_input s \<noteq> ti_end s then
        (if ti_input s < length (tbl_rows (ti_table s))
         then Some (Some (tbl_rows (ti_table s) ! ti_input s), s\<lparr>ti_input := ti_input s + 1\<rparr>)
         else None)
      else Some (None, s))"

definition TableIterator_close :: "'v TableIterator \<Rightarrow> 'v TableIterator" where
  "TableIterator_close s =
     s\<lparr>ti_input := length (tbl_rows (ti_table s)), ti_end := length (tbl_rows (ti_table s))\<rparr>"

definition TableIterator_Iterator :: "('v TableIterator, 'v) Iterator" where
  "TableIterator_Iterator =
     \<lparr>it_n_columns = TableIterator_n_columns, it_open = TableIterator_open,
      it_next = TableIterator_next, it_close = TableIterator_close\<rparr>"

subsection \<open>Select\<close>

record ('s, 'v) Select =
  sel_input :: 's
  sel_predicate :: "'v Row \<Rightarrow> bool"

definition Select_new :: "'s \<Rightarrow> ('v Row \<Rightarrow> bool) \<Rightarrow> ('s, 'v) Select" where
  "Select_new input predicate = \<lparr>sel_input = input, sel_predicate = predicate\<rparr>"

definition Select_n_columns :: "('s, 'v) Iterator \<Rightarrow> ('s, 'v) Select \<Rightarrow> nat" where
  "Select_n_columns I s = it_n_columns I (sel_input s)"

definition Select_open :: "('s, 'v) Iterator \<Rightarrow> ('s, 'v) Select \<Rightarrow> ('s, 'v) Select option" where
  "Select_open I s = Option.bind (it_open I (sel_input s)) (\<lambda>c. Some (s\<lparr>sel_input := c\<rparr>))"

text \<open>The \<^verbatim>\<open>while (row != NULL)\<close> loop of \<^verbatim>\<open>Select::next\<close>, entered with the row just pulled.\<close>

partial_function (option) Select_while ::
  "('s, 'v) Iterator \<Rightarrow> 'v Row option \<Rightarrow> ('s, 'v) Select \<Rightarrow> ('v Row option \<times> ('s, 'v) Select) option"
where
  "Select_while I row s =
     (case row of
        None \<Rightarrow> Some (None, s)
      | Some r \<Rightarrow>
          if sel_predicate s r then Some (Some r, s)
          else Option.bind (it_next I (sel_input s)) (\<lambda>(row', c).
                 Select_while I row' (s\<lparr>sel_input := c\<rparr>)))"

declare Select_while.simps [code]

definition Select_next :: "('s, 'v) Iterator \<Rightarrow> ('s, 'v) Select \<Rightarrow> ('v Row option \<times> ('s, 'v) Select) option" where
  "Select_next I s =
     Option.bind (it_next I (sel_input s)) (\<lambda>(row, c). Select_while I row (s\<lparr>sel_input := c\<rparr>))"

definition Select_close :: "('s, 'v) Iterator \<Rightarrow> ('s, 'v) Select \<Rightarrow> ('s, 'v) Select" where
  "Select_close I s = s\<lparr>sel_input := it_close I (sel_input s)\<rparr>"

definition Select_Iterator :: "('s, 'v) Iterator \<Rightarrow> (('s, 'v) Select, 'v) Iterator" where
  "Select_Iterator I =
     \<lparr>it_n_columns = Select_n_columns I, it_open = Select_open I,
      it_next = Select_next I, it_close = Select_close I\<rparr>"

subsection \<open>IndexScan\<close>

text \<open>
  Modelled from the spec: \<^verbatim>\<open>Index.h\<close> is not part of the sources. An index is a sequence
  of (key row, data row) pairs iterable in key order, with \<^verbatim>\<open>begin()\<close>, \<^verbatim>\<open>end()\<close>,
  \<^verbatim>\<open>empty()\<close> and the width \<^verbatim>\<open>n_columns()\<close> of the stored rows.
\<close>

record 'v Index =
  idx_entries :: "('v Row \<times> 'v Row) list"
  idx_n_columns :: nat

text \<open>
  \<^verbatim>\<open>_input\<close> and \<^verbatim>\<open>_end\<close> are positions in the index; the constructor does not
  initialise them, and \<open>None\<close> is that singular value. \<^verbatim>\<open>_lo\<close> and \<^verbatim>\<open>_hi\<close> are
  \<^verbatim>\<open>Row*\<close>.
\<close>

record 'v IndexScan =
  is_index :: "'v Index"
  is_lo :: "'v Row option"
  is_hi :: "'v Row option"
  is_input :: "nat option"
  is_end :: "nat option"

definition IndexScan_new :: "'v Index \<Rightarrow> 'v Row option \<Rightarrow> 'v Row option \<Rightarrow> 'v IndexScan" where
  "IndexScan_new index lo hi =
     \<lparr>is_index = index, is_lo = lo, is_hi = (if hi = None then lo else hi),
      is_input = None, is_end = None\<rparr>"

definition IndexScan_n_columns :: "'v IndexScan \<Rightarrow> nat" where
  "IndexScan_n_columns s = idx_n_columns (is_index s)"

definition IndexScan_open :: "'v IndexScan \<Rightarrow> 'v IndexScan option" where
  "IndexScan_open s =
     Some (s\<lparr>is_input := Some 0, is_end := Some (length (idx_entries (is_index s)))\<rparr>)"

text \<open>The \<^verbatim>\<open>while (_input != _end)\<close> loop of \<^verbatim>\<open>IndexScan::next\<close>.\<close>

partial_function (option) IndexScan_while ::
  "('v::linorder) IndexScan \<Rightarrow> ('v Row option \<times> 'v IndexScan) option"
where
  "IndexScan_while s =
     (case is_input s of None \<Rightarrow> None | Some i \<Rightarrow>
      case is_end s of None \<Rightarrow> None | Some e \<Rightarrow>
        if i \<noteq> e then
          if i < length (idx_entries (is_index s)) then
            Option.bind (at (fst (idx_entries (is_index s) ! i)) 0) (\<lambda>k.
            Option.bind (Option.bind (is_lo s) (\<lambda>lo. at lo 0)) (\<lambda>lo0.
              if k \<ge> lo0 then
                Option.bind (Option.bind (is_hi s) (\<lambda>hi. at hi 0)) (\<lambda>hi0.
                  if k \<le> hi0
                  then Some (Some (snd (idx_entries (is_index s) ! i)), s\<lparr>is_input := Some (i + 1)\<rparr>)
                  else IndexScan_while (s\<lparr>is_input := Some (i + 1)\<rparr>))
              else IndexScan_while (s\<lparr>is_input := Some (i + 1)\<rparr>)))
          else None
        else Some (None, s))"

declare IndexScan_while.simps [code]

definition IndexScan_next :: "('v::linorder) IndexScan \<Rightarrow> ('v Row option \<times> 'v IndexScan) option" where
  "IndexScan_next s =
     (if idx_entries (is_index s) \<noteq> [] then IndexScan_while s else Some (None, s))"

definition IndexScan_close :: "'v IndexScan \<Rightarrow> 'v IndexScan" where
  "IndexScan_close s = s\<lparr>is_input := Some (length (idx_entries (is_index s)))\<rparr>"

definition IndexScan_Iterator :: "(('v::linorder) IndexScan, 'v) Iterator" where
  "IndexScan_Iterator =
     \<lparr>it_n_columns = IndexScan_n_columns, it_open = IndexScan_open,
      it_next = IndexScan_next, it_close = IndexScan_close\<rparr>"

subsection \<open>Project\<close>

record 's Project =
  prj_input :: 's
  prj_column_selector :: ColumnSelector

definition Project_new :: "('s, 'v) Iterator \<Rightarrow> 's \<Rightarrow> nat list \<Rightarrow> 's Project option" where
  "Project_new I input columns =
     Option.bind (ColumnSelector_new (it_n_columns I input) columns) (\<lambda>cs.
       Some \<lparr>prj_input = input, prj_column_selector = cs\<rparr>)"

definition Project_n_columns :: "'s Project \<Rightarrow> nat" where
  "Project_n_columns s = n_selected (prj_column_selector s)"

definition Project_open :: "('s, 'v) Iterator \<Rightarrow> 's Project \<Rightarrow> 's Project option" where
  "Project_open I s = Option.bind (it_open I (prj_input s)) (\<lambda>c. Some (s\<lparr>prj_input := c\<rparr>))"

text \<open>
  \<^verbatim>\<open>Row::reclaim\<close> releases a row's storage and has no result; the stream model leaves
  such calls out. The section on row ownership below tracks them for Select.
\<close>

definition Project_next :: "('s, 'v) Iterator \<Rightarrow> 's Project \<Rightarrow> ('v Row option \<times> 's Project) option" where
  "Project_next I s =
     Option.bind (it_next I (prj_input s)) (\<lambda>(row, c).
       case row of
         None \<Rightarrow> Some (None, s\<lparr>prj_input := c\<rparr>)
       | Some r \<Rightarrow>
           Option.bind
             (for_upto 0 (n_selected (prj_column_selector s))
                (\<lambda>i projected.
                   Option.bind (selected (prj_column_selector s) i) (\<lambda>col.
                   Option.bind (at r col) (\<lambda>v. Some (projected @ [v]))))
                [])
             (\<lambda>projected. Some (Some projected, s\<lparr>prj_input := c\<rparr>)))"

definition Project_close :: "('s, 'v) Iterator \<Rightarrow> 's Project \<Rightarrow> 's Project" where
  "Project_close I s = s\<lparr>prj_input := it_close I (prj_input s)\<rparr>"

definition Project_Iterator :: "('s, 'v) Iterator \<Rightarrow> ('s Project, 'v) Iterator" where
  "Project_Iterator I =
     \<lparr>it_n_columns = Project_n_columns, it_open = Project_open I,
      it_next = Project_next I, it_close = Project_close I\<rparr>"

subsection \<open>NestedLoopsJoin\<close>

record ('l, 'r, 'v) NestedLoopsJoin =
  nlj_left :: 'l
  nlj_right :: 'r
  nlj_left_join_columns :: ColumnSelector
  nlj_right_join_columns :: ColumnSelector
  nlj_left_row :: "'v Row option"

text \<open>The \<^verbatim>\<open>assert\<close> of the constructor is the last test: construction fails when it does.\<close>

definition NestedLoopsJoin_new ::
  "('l, 'v) Iterator \<Rightarrow> 'l \<Rightarrow> nat list \<Rightarrow> ('r, 'v) Iterator \<Rightarrow> 'r \<Rightarrow> nat list
     \<Rightarrow> ('l, 'r, 'v) NestedLoopsJoin option"
where
  "NestedLoopsJoin_new L left left_join_columns R right right_join_columns =
     Option.bind (ColumnSelector_new (it_n_columns L left) left_join_columns) (\<lambda>lcs.
     Option.bind (ColumnSelector_new (it_n_columns R right) right_join_columns) (\<lambda>rcs.
       if n_selected lcs = n_selected rcs
       then Some \<lparr>nlj_left = left, nlj_right = right, nlj_left_join_columns = lcs,
                  nlj_right_join_columns = rcs, nlj_left_row = None\<rparr>
       else None))"

text \<open>
  \<^verbatim>\<open>n_selected() >= 0\<close> holds of every \<^verbatim>\<open>unsigned\<close>, so the first branch is always taken.
  The sum is \<^verbatim>\<open>unsigned\<close> (32 bits) arithmetic: \<open>0 + 0 - 1\<close> wraps around.
\<close>

definition NestedLoopsJoin_n_columns :: "('l, 'r, 'v) NestedLoopsJoin \<Rightarrow> nat" where
  "NestedLoopsJoin_n_columns s =
     (if 0 \<le> n_selected (nlj_left_join_columns s) \<and> 0 \<le> n_selected (nlj_right_join_columns s)
      then (cs_n_columns (nlj_left_join_columns s) + cs_n_columns (nlj_right_join_columns s)
              + 4294967295) mod 4294967296
      else 0)"

definition NestedLoopsJoin_open ::
  "('l, 'v) Iterator \<Rightarrow> ('r, 'v) Iterator \<Rightarrow> ('l, 'r, 'v) NestedLoopsJoin
     \<Rightarrow> ('l, 'r, 'v) NestedLoopsJoin option"
where
  "NestedLoopsJoin_open L R s =
     Option.bind (it_open L (nlj_left s)) (\<lambda>l.
     Option.bind (it_open R (nlj_right s)) (\<lambda>r.
     Option.bind (it_next L l) (\<lambda>(left_row, l').
       Some (s\<lparr>nlj_left := l', nlj_right := r, nlj_left_row := left_row\<rparr>))))"

definition match :: "ColumnSelector \<Rightarrow> ColumnSelector \<Rightarrow> 'v Row \<Rightarrow> 'v Row \<Rightarrow> bool option" where
  "match left_join_columns right_join_columns left right =
     Option.bind (selected left_join_columns 0) (\<lambda>lc.
     Option.bind (at left lc) (\<lambda>a.
     Option.bind (selected right_join_columns 0) (\<lambda>rc.
     Option.bind (at right rc) (\<lambda>b. Some (a = b)))))"

definition join_rows_if_match :: "ColumnSelector \<Rightarrow> 'v Row \<Rightarrow> 'v Row \<Rightarrow> 'v Row option" where
  "join_rows_if_match right_join_columns left right =
     Option.bind
       (for_upto 0 (length left)
          (\<lambda>i join_row. Option.bind (at left i) (\<lambda>v. Some (join_row @ [v]))) [])
       (\<lambda>join_row.
          for_upto 0 (length right)
            (\<lambda>i join_row.
               Option.bind (selected right_join_columns 0) (\<lambda>rc.
                 if i \<noteq> rc then Option.bind (at right i) (\<lambda>v. Some (join_row @ [v]))
                 else Some join_row))
            join_row)"

text \<open>
  The \<^verbatim>\<open>while\<close> loop of \<^verbatim>\<open>NestedLoopsJoin::next\<close>; \<open>r_row\<close> is the local variable of
  that name.
\<close>

partial_function (option) NestedLoopsJoin_while ::
  "('l, 'v) Iterator \<Rightarrow> ('r, 'v) Iterator \<Rightarrow> 'v Row option \<Rightarrow> ('l, 'r, 'v) NestedLoopsJoin
     \<Rightarrow> ('v Row option \<times> ('l, 'r, 'v) NestedLoopsJoin) option"
where
  "NestedLoopsJoin_while L R r_row s =
     (case nlj_left_row s of None \<Rightarrow> Some (r_row, s) | Some left_row \<Rightarrow>
      case r_row of None \<Rightarrow> Some (r_row, s) | Some right_row \<Rightarrow>
        Option.bind (match (nlj_left_join_columns s) (nlj_right_join_columns s) left_row right_row)
          (\<lambda>m.
            if \<not> m then
              Option.bind (it_next L (nlj_left s)) (\<lambda>(left_row', l).
                if left_row' = None then
                  Option.bind (it_next R (nlj_right s)) (\<lambda>(r_row', r).
                    if r_row' \<noteq> None then
                      Option.bind (it_open L (it_close L l)) (\<lambda>l'.
                      Option.bind (it_next L l') (\<lambda>(left_row'', l'').
                        NestedLoopsJoin_while L R r_row'
                          (s\<lparr>nlj_left := l'', nlj_right := r, nlj_left_row := left_row''\<rparr>)))
                    else
                      NestedLoopsJoin_while L R r_row'
                        (s\<lparr>nlj_left := l, nlj_right := r, nlj_left_row := left_row'\<rparr>))
                else
                  NestedLoopsJoin_while L R r_row (s\<lparr>nlj_left := l, nlj_left_row := left_row'\<rparr>))
            else Some (r_row, s)))"

declare NestedLoopsJoin_while.simps [code]

definition NestedLoopsJoin_next ::
  "('l, 'v) Iterator \<Rightarrow> ('r, 'v) Iterator \<Rightarrow> ('l, 'r, 'v) NestedLoopsJoin
     \<Rightarrow> ('v Row option \<times> ('l, 'r, 'v) NestedLoopsJoin) option"
where
  "NestedLoopsJoin_next L R s =
     Option.bind (it_next R (nlj_right s)) (\<lambda>(r_row, r).
     Option.bind (NestedLoopsJoin_while L R r_row (s\<lparr>nlj_right := r\<rparr>)) (\<lambda>(r_row, s').
       case nlj_left_row s' of None \<Rightarrow> Some (None, s') | Some left_row \<Rightarrow>
       case r_row of None \<Rightarrow> Some (None, s') | Some right_row \<Rightarrow>
         Option.bind (join_rows_if_match (nlj_right_join_columns s') left_row right_row)
           (\<lambda>nested. Some (Some nested, s'))))"

definition NestedLoopsJoin_close ::
  "('l, 'v) Iterator \<Rightarrow> ('r, 'v) Iterator \<Rightarrow> ('l, 'r, 'v) NestedLoopsJoin
     \<Rightarrow> ('l, 'r, 'v) NestedLoopsJoin"
where
  "NestedLoopsJoin_close L R s =
     s\<lparr>nlj_left := it_close L (nlj_left s), nlj_right := it_close R (nlj_right s)\<rparr>"

definition NestedLoopsJoin_Iterator ::
  "('l, 'v) Iterator \<Rightarrow> ('r, 'v) Iterator \<Rightarrow> (('l, 'r, 'v) NestedLoopsJoin, 'v) Iterator"
where
  "NestedLoopsJoin_Iterator L R =
     \<lparr>it_n_columns = NestedLoopsJoin_n_columns, it_open = NestedLoopsJoin_open L R,
      it_next = NestedLoopsJoin_next L R, it_close = NestedLoopsJoin_close L R\<rparr>"

subsection \<open>Sort\<close>

text \<open>
  Modelled from the spec: \<^verbatim>\<open>RowCompare.h\<close> is not part of the sources. The comparator
  holds an ordered list of key column positions and compares the columns in listed
  order; the first unequal column decides, and rows equal on all listed columns are
  tied. \<open>RowCompare cols a b\<close> is "\<open>a\<close> goes before \<open>b\<close>". What the comparator reads at a
  listed position that a row does not have is not fixed by the sources; it is some
  value (\<open>!\<close>).
\<close>

fun RowCompare :: "nat list \<Rightarrow> ('v::linorder) Row \<Rightarrow> 'v Row \<Rightarrow> bool" where
  "RowCompare [] a b = False"
| "RowCompare (c # cs) a b =
     (if a ! c < b ! c then True
      else if b ! c < a ! c then False
      else RowCompare cs a b)"

text \<open>
  \<^verbatim>\<open>std::sort\<close> is the C++ library's and a parameter of the operator. Its contract:
  whenever the comparator is a strict weak ordering it returns, with a permutation of
  its input in which no element goes before an earlier one under the comparator. The
  standard does not promise that tied elements keep their order, and leaves the
  behaviour open for any other comparator: the function may then have no result.
\<close>

definition strict_weak_order :: "('a \<Rightarrow> 'a \<Rightarrow> bool) \<Rightarrow> bool" where
  "strict_weak_order lt \<longleftrightarrow>
     (\<forall>a. \<not> lt a a) \<and>
     (\<forall>a b c. lt a b \<longrightarrow> lt b c \<longrightarrow> lt a c) \<and>
     (\<forall>a b c. \<not> lt a b \<longrightarrow> \<not> lt b c \<longrightarrow> \<not> lt a c)"

definition std_sort_contract :: "(('a \<Rightarrow> 'a \<Rightarrow> bool) \<Rightarrow> 'a list \<Rightarrow> 'a list option) \<Rightarrow> bool" where
  "std_sort_contract std_sort \<longleftrightarrow>
     (\<forall>lt xs. strict_weak_order lt \<longrightarrow>
        (\<exists>ys. std_sort lt xs = Some ys \<and> mset ys = mset xs \<and>
              sorted_wrt (\<lambda>a b. \<not> lt b a) ys))"

text \<open>
  \<^verbatim>\<open>_sorted_iterator\<close> is a position in \<^verbatim>\<open>_sorted\<close>; the constructor does not initialise
  it, and \<open>None\<close> is that singular value.
\<close>

record ('s, 'v) Sort =
  srt_input :: 's
  srt_sort_columns :: "nat list"
  srt_sorted :: "'v Row list"
  srt_sorted_iterator :: "nat option"

definition Sort_new :: "'s \<Rightarrow> nat list \<Rightarrow> ('s, 'v) Sort" where
  "Sort_new input sort_columns =
     \<lparr>srt_input = input, srt_sort_columns = sort_columns, srt_sorted = [],
      srt_sorted_iterator = None\<rparr>"

definition Sort_n_columns :: "('s, 'v) Iterator \<Rightarrow> ('s, 'v) Sort \<Rightarrow> nat" where
  "Sort_n_columns I s = it_n_columns I (srt_input s)"

text \<open>The \<^verbatim>\<open>while (row != NULL)\<close> loop of \<^verbatim>\<open>Sort::open\<close>.\<close>

partial_function (option) Sort_open_while ::
  "('s, 'v) Iterator \<Rightarrow> 'v Row option \<Rightarrow> ('s, 'v) Sort \<Rightarrow> ('v Row option \<times> ('s, 'v) Sort) option"
where
  "Sort_open_while I row s =
     (case row of
        None \<Rightarrow> Some (row, s)
      | Some r \<Rightarrow>
          Option.bind (it_next I (srt_input s)) (\<lambda>(row', c).
            Sort_open_while I row' (s\<lparr>srt_sorted := srt_sorted s @ [r], srt_input := c\<rparr>)))"

declare Sort_open_while.simps [code]

text \<open>
  \<^verbatim>\<open>Sort::open\<close>. \<^verbatim>\<open>_sorted.clear()\<close> comes after the first \<^verbatim>\<open>_input->next()\<close> and
  before the loop; the final \<^verbatim>\<open>Row::reclaim(row)\<close> is given \<^verbatim>\<open>NULL\<close>.
\<close>

definition Sort_open ::
  "((('v::linorder) Row \<Rightarrow> 'v Row \<Rightarrow> bool) \<Rightarrow> 'v Row list \<Rightarrow> 'v Row list option)
     \<Rightarrow> ('s, 'v) Iterator \<Rightarrow> ('s, 'v) Sort \<Rightarrow> ('s, 'v) Sort option"
where
  "Sort_open std_sort I s =
     Option.bind (it_open I (srt_input s)) (\<lambda>c.
     Option.bind (it_next I c) (\<lambda>(row, c').
     Option.bind (Sort_open_while I row (s\<lparr>srt_input := c', srt_sorted := []\<rparr>)) (\<lambda>(row, s').
     Option.bind (std_sort (RowCompare (srt_sort_columns s')) (srt_sorted s')) (\<lambda>rows.
       Some (s'\<lparr>srt_sorted := rows, srt_sorted_iterator := Some 0\<rparr>)))))"

definition Sort_next :: "('s, 'v) Sort \<Rightarrow> ('v Row option \<times> ('s, 'v) Sort) option" where
  "Sort_next s =
     (case srt_sorted_iterator s of None \<Rightarrow> None | Some i \<Rightarrow>
        if i \<noteq> length (srt_sorted s) then
          if i < length (srt_sorted s)
          then Some (Some (srt_sorted s ! i), s\<lparr>srt_sorted_iterator := Some (i + 1)\<rparr>)
          else None
        else Some (None, s))"

definition Sort_close :: "('s, 'v) Iterator \<Rightarrow> ('s, 'v) Sort \<Rightarrow> ('s, 'v) Sort" where
  "Sort_close I s = s\<lparr>srt_input := it_close I (srt_input s)\<rparr>"

definition Sort_Iterator ::
  "((('v::linorder) Row \<Rightarrow> 'v Row \<Rightarrow> bool) \<Rightarrow> 'v Row list \<Rightarrow> 'v Row list option)
     \<Rightarrow> ('s, 'v) Iterator \<Rightarrow> (('s, 'v) Sort, 'v) Iterator"
where
  "Sort_Iterator std_sort I =
     \<lparr>it_n_columns = Sort_n_columns I, it_open = Sort_open std_sort I,
      it_next = Sort_next, it_close = Sort_close I\<rparr>"

subsection \<open>Unique\<close>

text \<open>
  Modelled from the spec: the column values' \<^verbatim>\<open>compare\<close> is not part of the sources. It
  is a value-wise three-way comparison, 0 exactly for equal values.
\<close>

definition compare :: "('v::linorder) \<Rightarrow> 'v \<Rightarrow> int" where
  "compare a b = (if a < b then - 1 else if b < a then 1 else 0)"

record ('s, 'v) Unique =
  unq_input :: 's
  unq_last_unique :: "'v Row option"

definition Unique_new :: "'s \<Rightarrow> ('s, 'v) Unique" where
  "Unique_new input = \<lparr>unq_input = input, unq_last_unique = None\<rparr>"

definition Unique_n_columns :: "('s, 'v) Iterator \<Rightarrow> ('s, 'v) Unique \<Rightarrow> nat" where
  "Unique_n_columns I s = it_n_columns I (unq_input s)"

definition Unique_open :: "('s, 'v) Iterator \<Rightarrow> ('s, 'v) Unique \<Rightarrow> ('s, 'v) Unique option" where
  "Unique_open I s = Option.bind (it_open I (unq_input s)) (\<lambda>c. Some (s\<lparr>unq_input := c\<rparr>))"

text \<open>
  The \<^verbatim>\<open>else\<close> branch of the loop body of \<^verbatim>\<open>Unique::next\<close>: whether \<open>row\<close> is returned
  as the new \<^verbatim>\<open>_last_unique\<close>. The column test runs only for rows of equal size.
\<close>

definition Unique_differs :: "('v::linorder) Row \<Rightarrow> 'v Row \<Rightarrow> bool option" where
  "Unique_differs row last_unique =
     (if length row = length last_unique then
        Option.bind
          (for_upto 0 (length row)
             (\<lambda>i equal.
                Option.bind (at row i) (\<lambda>a.
                Option.bind (at last_unique i) (\<lambda>b.
                  Some (if compare a b \<noteq> 0 then False else equal))))
             True)
          (\<lambda>equal. Some (\<not> equal))
      else Some False)"

text \<open>The \<^verbatim>\<open>while (row != NULL)\<close> loop of \<^verbatim>\<open>Unique::next\<close>.\<close>

partial_function (option) Unique_while ::
  "('s, 'v::linorder) Iterator \<Rightarrow> 'v Row option \<Rightarrow> ('s, 'v) Unique
     \<Rightarrow> ('v Row option \<times> ('s, 'v) Unique) option"
where
  "Unique_while I row s =
     (case row of
        None \<Rightarrow> Some (None, s)
      | Some r \<Rightarrow>
          (case unq_last_unique s of
             None \<Rightarrow> Some (Some r, s\<lparr>unq_last_unique := Some r\<rparr>)
           | Some last_unique \<Rightarrow>
               Option.bind (Unique_differs r last_unique) (\<lambda>differs.
                 if differs then Some (Some r, s\<lparr>unq_last_unique := Some r\<rparr>)
                 else Option.bind (it_next I (unq_input s)) (\<lambda>(row', c).
                        Unique_while I row' (s\<lparr>unq_input := c\<rparr>)))))"

declare Unique_while.simps [code]

definition Unique_next ::
  "('s, 'v::linorder) Iterator \<Rightarrow> ('s, 'v) Unique \<Rightarrow> ('v Row option \<times> ('s, 'v) Unique) option"
where
  "Unique_next I s =
     Option.bind (it_next I (unq_input s)) (\<lambda>(row, c). Unique_while I row (s\<lparr>unq_input := c\<rparr>))"

definition Unique_close :: "('s, 'v) Iterator \<Rightarrow> ('s, 'v) Unique \<Rightarrow> ('s, 'v) Unique" where
  "Unique_close I s = s\<lparr>unq_input := it_close I (unq_input s)\<rparr>"

definition Unique_Iterator :: "('s, 'v::linorder) Iterator \<Rightarrow> (('s, 'v) Unique, 'v) Iterator" where
  "Unique_Iterator I =
     \<lparr>it_n_columns = Unique_n_columns I, it_open = Unique_open I,
      it_next = Unique_next I, it_close = Unique_close I\<rparr>"

subsection \<open>The stream Unique computes\<close>

text \<open>
  The stream of rows a Unique is to return over a child stream, in the words of the
  specification: with no last emitted row, the row is emitted and becomes the last
  emitted row; a row equal to the last emitted row is skipped; a row that differs from
  it is emitted and becomes the new last emitted row.
\<close>

fun Unique_spec :: "'v Row option \<Rightarrow> 'v Row list \<Rightarrow> 'v Row list" where
  "Unique_spec last_unique [] = []"
| "Unique_spec None (x # xs) = x # Unique_spec (Some x) xs"
| "Unique_spec (Some l) (x # xs) =
     (if x = l then Unique_spec (Some l) xs else x # Unique_spec (Some x) xs)"

subsection \<open>The \<^verbatim>\<open>std::sort\<close> of GNU libstdc++\<close>

text \<open>
  The call \<^verbatim>\<open>std::sort(_sorted.begin(), _sorted.end(), RowCompare(_sort_columns))\<close> of
  \<^verbatim>\<open>Sort::open\<close> runs the C++ library's function. In a build with GCC that is the
  introsort of libstdc++ (\<^verbatim>\<open>bits/stl_algo.h\<close>), translated here function by function.
  The vector is a list and an iterator is a position in it; a read or write outside the
  vector has no result. The heap sort that \<^verbatim>\<open>__introsort_loop\<close> falls back on when its
  depth limit is used up, \<^verbatim>\<open>std::__partial_sort\<close>, is a parameter.
\<close>

definition deref :: "'a list \<Rightarrow> nat \<Rightarrow> 'a option" where
  "deref v i = (if i < length v then Some (v ! i) else None)"

definition assign :: "'a list \<Rightarrow> nat \<Rightarrow> 'a \<Rightarrow> 'a list option" where
  "assign v i x = (if i < length v then Some (v[i := x]) else None)"

definition iter_swap :: "'a list \<Rightarrow> nat \<Rightarrow> nat \<Rightarrow> 'a list option" where
  "iter_swap v a b =
     Option.bind (deref v a) (\<lambda>x.
     Option.bind (deref v b) (\<lambda>y.
     Option.bind (assign v a y) (\<lambda>v'. assign v' b x)))"

text \<open>\<^verbatim>\<open>__comp(__a, __b)\<close> on two iterators: the comparator on the elements they point to.\<close>

definition iter_comp_iter :: "('a \<Rightarrow> 'a \<Rightarrow> bool) \<Rightarrow> 'a list \<Rightarrow> nat \<Rightarrow> nat \<Rightarrow> bool option" where
  "iter_comp_iter cmp v a b =
     Option.bind (deref v a) (\<lambda>x. Option.bind (deref v b) (\<lambda>y. Some (cmp x y)))"

text \<open>\<^verbatim>\<open>_S_threshold\<close>, and \<^verbatim>\<open>std::__lg\<close>: the position of the highest set bit.\<close>

definition S_threshold :: nat where
  "S_threshold = 16"

fun lg :: "nat \<Rightarrow> nat" where
  "lg n = (if n < 2 then 0 else Suc (lg (n div 2)))"

declare lg.simps [simp del]

definition move_median_to_first ::
  "('a \<Rightarrow> 'a \<Rightarrow> bool) \<Rightarrow> 'a list \<Rightarrow> nat \<Rightarrow> nat \<Rightarrow> nat \<Rightarrow> nat \<Rightarrow> 'a list option"
where
  "move_median_to_first cmp v result a b c =
     Option.bind (iter_comp_iter cmp v a b) (\<lambda>ab.
       if ab then
         Option.bind (iter_comp_iter cmp v b c) (\<lambda>bc.
           if bc then iter_swap v result b
           else Option.bind (iter_comp_iter cmp v a c) (\<lambda>ac.
             if ac then iter_swap v result c else iter_swap v result a))
       else
         Option.bind (iter_comp_iter cmp v a c) (\<lambda>ac.
           if ac then iter_swap v result a
           else Option.bind (iter_comp_iter cmp v b c) (\<lambda>bc.
             if bc then iter_swap v result c else iter_swap v result b)))"

text \<open>
  The two inner loops of \<^verbatim>\<open>__unguarded_partition\<close>,
  \<^verbatim>\<open>while (__comp(__first, __pivot)) ++__first\<close> and
  \<^verbatim>\<open>while (__comp(__pivot, __last)) --__last\<close>, and its outer \<^verbatim>\<open>while (true)\<close>. The loops
  test no bound.
\<close>

partial_function (option) advance_first ::
  "('a \<Rightarrow> 'a \<Rightarrow> bool) \<Rightarrow> 'a list \<Rightarrow> nat \<Rightarrow> nat \<Rightarrow> nat option"
where
  "advance_first cmp v first pivot =
     Option.bind (iter_comp_iter cmp v first pivot) (\<lambda>c.
       if c then advance_first cmp v (first + 1) pivot else Some first)"

declare advance_first.simps [code]

partial_function (option) retreat_last ::
  "('a \<Rightarrow> 'a \<Rightarrow> bool) \<Rightarrow> 'a list \<Rightarrow> nat \<Rightarrow> nat \<Rightarrow> nat option"
where
  "retreat_last cmp v pivot last' =
     Option.bind (iter_comp_iter cmp v pivot last') (\<lambda>c.
       if c then (if last' = 0 then None else retreat_last cmp v pivot (last' - 1))
       else Some last')"

declare retreat_last.simps [code]

partial_function (option) unguarded_partition ::
  "('a \<Rightarrow> 'a \<Rightarrow> bool) \<Rightarrow> 'a list \<Rightarrow> nat \<Rightarrow> nat \<Rightarrow> nat \<Rightarrow> (nat \<times> 'a list) option"
where
  "unguarded_partition cmp v first last' pivot =
     Option.bind (advance_first cmp v first pivot) (\<lambda>first1.
       if last' = 0 then None
       else Option.bind (retreat_last cmp v pivot (last' - 1)) (\<lambda>last1.
         if \<not> first1 < last1 then Some (first1, v)
         else Option.bind (iter_swap v first1 last1) (\<lambda>v'.
                unguarded_partition cmp v' (first1 + 1) last1 pivot)))"

declare unguarded_partition.simps [code]

definition unguarded_partition_pivot ::
  "('a \<Rightarrow> 'a \<Rightarrow> bool) \<Rightarrow> 'a list \<Rightarrow> nat \<Rightarrow> nat \<Rightarrow> (nat \<times> 'a list) option"
where
  "unguarded_partition_pivot cmp v first last' =
     (let mid = first + (last' - first) div 2 in
      Option.bind (move_median_to_first cmp v first (first + 1) mid (last' - 1)) (\<lambda>v'.
        unguarded_partition cmp v' (first + 1) last' first))"

text \<open>
  \<^verbatim>\<open>__introsort_loop\<close>: each round of its \<^verbatim>\<open>while\<close> loop sorts the upper part by a
  recursive call and goes on with the lower part, with the depth limit one less.
\<close>

fun introsort_loop ::
  "(('a \<Rightarrow> 'a \<Rightarrow> bool) \<Rightarrow> 'a list \<Rightarrow> nat \<Rightarrow> nat \<Rightarrow> nat \<Rightarrow> 'a list option)
     \<Rightarrow> ('a \<Rightarrow> 'a \<Rightarrow> bool) \<Rightarrow> 'a list \<Rightarrow> nat \<Rightarrow> nat \<Rightarrow> nat \<Rightarrow> 'a list option"
where
  "introsort_loop partial_sort cmp v first last' 0 =
     (if last' - first > S_threshold then partial_sort cmp v first last' last' else Some v)"
| "introsort_loop partial_sort cmp v first last' (Suc depth_limit) =
     (if last' - first > S_threshold then
        Option.bind (unguarded_partition_pivot cmp v first last') (\<lambda>(cut, v1).
        Option.bind (introsort_loop partial_sort cmp v1 cut last' depth_limit) (\<lambda>v2.
          introsort_loop partial_sort cmp v2 first cut depth_limit))
      else Some v)"

text \<open>
  \<^verbatim>\<open>__unguarded_linear_insert\<close>: the loop
  \<^verbatim>\<open>while (__comp(__val, __next)) { *__last = *__next; __last = __next; --__next; }\<close>
  with \<^verbatim>\<open>__next\<close> one before \<^verbatim>\<open>__last\<close>, then \<^verbatim>\<open>*__last = __val\<close>.
\<close>

fun unguarded_linear_insert_while ::
  "('a \<Rightarrow> 'a \<Rightarrow> bool) \<Rightarrow> 'a \<Rightarrow> 'a list \<Rightarrow> nat \<Rightarrow> 'a list option"
where
  "unguarded_linear_insert_while cmp val v 0 = None"
| "unguarded_linear_insert_while cmp val v (Suc next') =
     Option.bind (deref v next') (\<lambda>x.
       if cmp val x then
         Option.bind (assign v (Suc next') x) (\<lambda>v'. unguarded_linear_insert_while cmp val v' next')
       else assign v (Suc next') val)"

definition unguarded_linear_insert :: "('a \<Rightarrow> 'a \<Rightarrow> bool) \<Rightarrow> 'a list \<Rightarrow> nat \<Rightarrow> 'a list option" where
  "unguarded_linear_insert cmp v last' =
     Option.bind (deref v last') (\<lambda>val. unguarded_linear_insert_while cmp val v last')"

text \<open>
  \<^verbatim>\<open>__insertion_sort\<close>: an element that goes before the first one is moved to the front
  (\<^verbatim>\<open>std::move_backward\<close> shifts the elements before it up by one); any other element
  is inserted by \<^verbatim>\<open>__unguarded_linear_insert\<close>.
\<close>

definition insertion_sort ::
  "('a \<Rightarrow> 'a \<Rightarrow> bool) \<Rightarrow> 'a list \<Rightarrow> nat \<Rightarrow> nat \<Rightarrow> 'a list option"
where
  "insertion_sort cmp v first last' =
     (if first = last' then Some v
      else for_upto (first + 1) last'
             (\<lambda>i v. Option.bind (iter_comp_iter cmp v i first) (\<lambda>c.
                if c then
                  Some (take first v @ v ! i # take (i - first) (drop first v) @ drop (i + 1) v)
                else unguarded_linear_insert cmp v i))
             v)"

definition unguarded_insertion_sort ::
  "('a \<Rightarrow> 'a \<Rightarrow> bool) \<Rightarrow> 'a list \<Rightarrow> nat \<Rightarrow> nat \<Rightarrow> 'a list option"
where
  "unguarded_insertion_sort cmp v first last' =
     for_upto first last' (\<lambda>i v. unguarded_linear_insert cmp v i) v"

definition final_insertion_sort ::
  "('a \<Rightarrow> 'a \<Rightarrow> bool) \<Rightarrow> 'a list \<Rightarrow> nat \<Rightarrow> nat \<Rightarrow> 'a list option"
where
  "final_insertion_sort cmp v first last' =
     (if last' - first > S_threshold then
        Option.bind (insertion_sort cmp v first (first + S_threshold)) (\<lambda>v'.
          unguarded_insertion_sort cmp v' (first + S_threshold) last')
      else insertion_sort cmp v first last')"

text \<open>\<^verbatim>\<open>std::__sort\<close> over the whole vector, \<^verbatim>\<open>begin()\<close> to \<^verbatim>\<open>end()\<close>.\<close>

definition std_sort_gnu ::
  "(('a \<Rightarrow> 'a \<Rightarrow> bool) \<Rightarrow> 'a list \<Rightarrow> nat \<Rightarrow> nat \<Rightarrow> nat \<Rightarrow> 'a list option)
     \<Rightarrow> ('a \<Rightarrow> 'a \<Rightarrow> bool) \<Rightarrow> 'a list \<Rightarrow> 'a list option"
where
  "std_sort_gnu partial_sort cmp v =
     (let first = 0; last' = length v in
      if first \<noteq> last' then
        Option.bind (introsort_loop partial_sort cmp v first last' (lg (last' - first) * 2)) (\<lambda>v'.
          final_insertion_sort cmp v' first last')
      else Some v)"

subsection \<open>Invariants of NestedLoopsJoin between calls\<close>




subsection \<open>Call sequences\<close>

text \<open>
  \<open>reach I s t\<close>: some sequence of calls of \<^verbatim>\<open>open\<close>, \<^verbatim>\<open>next\<close> and \<^verbatim>\<open>close\<close> that return
  takes the object from the state \<open>s\<close> to the state \<open>t\<close>. Every
  \<^verbatim>\<open>open\<close>, \<^verbatim>\<open>next\<close>*, \<^verbatim>\<open>close\<close> cycle is such a sequence.
\<close>

inductive reach :: "('s, 'v) Iterator \<Rightarrow> 's \<Rightarrow> 's \<Rightarrow> bool" for I :: "('s, 'v) Iterator" where
  reach_refl: "reach I s s"
| reach_open: "reach I s t \<Longrightarrow> it_open I t = Some u \<Longrightarrow> reach I s u"
| reach_next: "reach I s t \<Longrightarrow> it_next I t = Some (row, u) \<Longrightarrow> reach I s u"
| reach_close: "reach I s t \<Longrightarrow> reach I s (it_close I t)"

text \<open>
  From the state \<open>s\<close> on, \<^verbatim>\<open>n_columns()\<close> keeps the value it has in \<open>s\<close>, and every row
  that \<^verbatim>\<open>next()\<close> returns has that many columns.
\<close>

definition width_stable :: "('s, 'v) Iterator \<Rightarrow> 's \<Rightarrow> bool" where
  "width_stable I s \<longleftrightarrow>
     (\<forall>t. reach I s t \<longrightarrow>
        it_n_columns I t = it_n_columns I s \<and>
        (\<forall>row u. it_next I t = Some (Some row, u) \<longrightarrow> length row = it_n_columns I s))"

subsection \<open>Row ownership in Select\<close>

text \<open>
  What \<^verbatim>\<open>Select::next\<close> does with the rows it owns, as a log: a row pulled from the child
  passes to Select; Select passes a row on by returning it, or releases it with
  \<^verbatim>\<open>Row::reclaim\<close>. \<open>Select_next_owned\<close> is \<^verbatim>\<open>Select::next\<close> again, statement by
  statement, with the log written: the source pulls before the loop and at the end of
  the loop body, returns the accepted row, and calls \<^verbatim>\<open>Row::reclaim\<close> nowhere.
\<close>

datatype 'v ownership = Pulled "'v Row" | Returned "'v Row" | Reclaimed "'v Row"

definition pulled :: "'v Row option \<Rightarrow> 'v ownership list \<Rightarrow> 'v ownership list" where
  "pulled row log = (case row of None \<Rightarrow> log | Some r \<Rightarrow> log @ [Pulled r])"

partial_function (option) Select_while_owned ::
  "('s, 'v) Iterator \<Rightarrow> 'v Row option \<Rightarrow> ('s, 'v) Select \<Rightarrow> 'v ownership list
     \<Rightarrow> ('v Row option \<times> ('s, 'v) Select \<times> 'v ownership list) option"
where
  "Select_while_owned I row s log =
     (case row of
        None \<Rightarrow> Some (None, s, log)
      | Some r \<Rightarrow>
          if sel_predicate s r then Some (Some r, s, log @ [Returned r])
          else Option.bind (it_next I (sel_input s)) (\<lambda>(row', c).
                 Select_while_owned I row' (s\<lparr>sel_input := c\<rparr>) (pulled row' log)))"

declare Select_while_owned.simps [code]

definition Select_next_owned ::
  "('s, 'v) Iterator \<Rightarrow> ('s, 'v) Select
     \<Rightarrow> ('v Row option \<times> ('s, 'v) Select \<times> 'v ownership list) option"
where
  "Select_next_owned I s =
     Option.bind (it_next I (sel_input s)) (\<lambda>(row, c).
       Select_while_owned I row (s\<lparr>sel_input := c\<rparr>) (pulled row []))"

text \<open>The rows of a log that were pulled and neither returned nor reclaimed.\<close>

definition leaked :: "'v ownership list \<Rightarrow> 'v Row list" where
  "leaked log =
     concat (map (\<lambda>e. case e of
                      Pulled r \<Rightarrow> if Returned r \<in> set log then []
                                  else if Reclaimed r \<in> set log then [] else [r]
                    | Returned r \<Rightarrow> []
                    | Reclaimed r \<Rightarrow> []) log)"

section \<open>Draining an iterator\<close>

lemma drain_Nil: "drain I s = Some ([], s') \<longleftrightarrow> it_next I s = Some (None, s')"
  by (subst drain.simps) (auto split: Option.bind_splits option.splits)

lemma drain_Cons:
  "drain I s = Some (x # xs, s') \<longleftrightarrow>
     (\<exists>s1. it_next I s = Some (Some x, s1) \<and> drain I s1 = Some (xs, s'))"
  by (subst drain.simps) (auto split: Option.bind_splits option.splits)

lemma drain_next_None: "it_next I s = Some (None, s') \<Longrightarrow> drain I s = Some ([], s')"
  by (simp add: drain_Nil)

lemma drain_next_Some:
  "it_next I s = Some (Some x, s1) \<Longrightarrow> drain I s1 = Some (xs, s') \<Longrightarrow> drain I s = Some (x # xs, s')"
  by (auto simp: drain_Cons)

lemma drain_cong_next:
  "it_next I s = it_next I t \<Longrightarrow> drain I s = drain I t"
  by (subst drain.simps, subst (2) drain.simps) simp

subsection \<open>TableIterator returns the rows of its table\<close>

lemma TableIterator_drain_from:
  "ti_end s = length (tbl_rows (ti_table s)) \<Longrightarrow> ti_input s \<le> ti_end s \<Longrightarrow>
   drain TableIterator_Iterator s
     = Some (drop (ti_input s) (tbl_rows (ti_table s)), s\<lparr>ti_input := ti_end s\<rparr>)"
proof (induction "ti_end s - ti_input s" arbitrary: s)
  case 0
  then have "it_next TableIterator_Iterator s = Some (None, s)"
    by (simp add: TableIterator_Iterator_def TableIterator_next_def)
  then have "drain TableIterator_Iterator s = Some ([], s)"
    by (simp add: drain_Nil)
  moreover have "s\<lparr>ti_input := ti_end s\<rparr> = s" using 0 by simp
  ultimately show ?case using 0 by simp
next
  case (Suc n)
  let ?s1 = "s\<lparr>ti_input := ti_input s + 1\<rparr>"
  have lt: "ti_input s < length (tbl_rows (ti_table s))" using Suc by simp
  then have n: "it_next TableIterator_Iterator s
      = Some (Some (tbl_rows (ti_table s) ! ti_input s), ?s1)"
    using Suc by (simp add: TableIterator_Iterator_def TableIterator_next_def)
  have "drain TableIterator_Iterator ?s1
      = Some (drop (ti_input ?s1) (tbl_rows (ti_table ?s1)), ?s1\<lparr>ti_input := ti_end ?s1\<rparr>)"
    using Suc by (intro Suc.hyps(1)) auto
  then have "drain TableIterator_Iterator ?s1
      = Some (drop (Suc (ti_input s)) (tbl_rows (ti_table s)), s\<lparr>ti_input := ti_end s\<rparr>)"
    by simp
  from drain_next_Some [OF n this] show ?case
    using lt by (simp add: Cons_nth_drop_Suc)
qed

lemma TableIterator_run:
  "ti_end s = length (tbl_rows (ti_table s)) \<Longrightarrow>
   run TableIterator_Iterator s
     = Some (tbl_rows (ti_table s), s\<lparr>ti_input := length (tbl_rows (ti_table s))\<rparr>)"
  using TableIterator_drain_from [of "s\<lparr>ti_input := 0\<rparr>"]
  by (simp add: run_def TableIterator_Iterator_def TableIterator_open_def)

lemma TableIterator_run_new:
  "run TableIterator_Iterator (TableIterator_new t)
     = Some (tbl_rows t, \<lparr>ti_table = t, ti_input = length (tbl_rows t), ti_end = length (tbl_rows t)\<rparr>)"
  using TableIterator_run [of "TableIterator_new t"] by (simp add: TableIterator_new_def)


lemma Select_next_reject:
  assumes "it_next I (sel_input s) = Some (Some x, c1)" "\<not> sel_predicate s x"
  shows "Select_next I s = Select_next I (s\<lparr>sel_input := c1\<rparr>)"
  using assms by (simp add: Select_next_def Select_while.simps [of I "Some x"])

lemma Select_next_accept:
  assumes "it_next I (sel_input s) = Some (Some x, c1)" "sel_predicate s x"
  shows "Select_next I s = Some (Some x, s\<lparr>sel_input := c1\<rparr>)"
  using assms by (simp add: Select_next_def Select_while.simps [of I "Some x"])

lemma Select_next_end:
  assumes "it_next I (sel_input s) = Some (None, c1)"
  shows "Select_next I s = Some (None, s\<lparr>sel_input := c1\<rparr>)"
  using assms by (simp add: Select_next_def Select_while.simps [of I None])

lemma Select_drain:
  "drain I c = Some (xs, c') \<Longrightarrow>
   drain (Select_Iterator I) \<lparr>sel_input = c, sel_predicate = p\<rparr>
     = Some (filter p xs, \<lparr>sel_input = c', sel_predicate = p\<rparr>)"
proof (induction xs arbitrary: c)
  case Nil
  then have "it_next I c = Some (None, c')" by (simp add: drain_Nil)
  then show ?case
    by (simp add: drain_Nil Select_Iterator_def Select_next_end)
next
  case (Cons x xs)
  then obtain c1 where n: "it_next I c = Some (Some x, c1)" and d: "drain I c1 = Some (xs, c')"
    by (auto simp: drain_Cons)
  let ?s = "\<lparr>sel_input = c, sel_predicate = p\<rparr>"
  let ?s1 = "\<lparr>sel_input = c1, sel_predicate = p\<rparr>"
  note IH = Cons.IH [OF d]
  show ?case
  proof (cases "p x")
    case True
    then have "it_next (Select_Iterator I) ?s = Some (Some x, ?s1)"
      using n by (simp add: Select_Iterator_def Select_next_accept)
    then show ?thesis using IH True by (simp add: drain_Cons)
  next
    case False
    then have "it_next (Select_Iterator I) ?s = it_next (Select_Iterator I) ?s1"
      using n Select_next_reject [of I ?s x c1] by (simp add: Select_Iterator_def)
    then have "drain (Select_Iterator I) ?s = drain (Select_Iterator I) ?s1"
      by (rule drain_cong_next)
    then show ?thesis using IH False by simp
  qed
qed

lemma Select_run:
  assumes "run I c0 = Some (xs, c')"
  shows "run (Select_Iterator I) (Select_new c0 p) = Some (filter p xs, Select_new c' p)"
proof -
  from assms obtain c where o: "it_open I c0 = Some c" and d: "drain I c = Some (xs, c')"
    by (auto simp: run_def split: Option.bind_splits)
  have "it_open (Select_Iterator I) (Select_new c0 p) = Some \<lparr>sel_input = c, sel_predicate = p\<rparr>"
    using o by (simp add: Select_Iterator_def Select_open_def Select_new_def)
  then show ?thesis using Select_drain [OF d, of p] by (simp add: run_def Select_new_def)
qed

subsection \<open>Select returns the child rows that satisfy the predicate\<close>

text \<open>
  C7. For every child and every predicate: if opening and draining the child gives the
  rows \<open>xs\<close>, then opening and draining Select gives exactly \<open>filter p xs\<close>, the accepted
  rows unchanged and in child order, and then end-of-stream. Select with the predicate
  "column 0 > 5" over the rows (1), (6), (10) returns (6), (10).
\<close>

theorem Select_filters:
  "(run I c0 = Some (xs, c') \<longrightarrow>
      run (Select_Iterator I) (Select_new c0 p) = Some (filter p xs, Select_new c' p))
   \<and> map_option fst (run (Select_Iterator TableIterator_Iterator)
        (Select_new (TableIterator_new \<lparr>tbl_columns = [''c0''], tbl_rows = [[1], [6], [10::int]]\<rparr>)
           (\<lambda>row. case at row 0 of Some v \<Rightarrow> v > 5 | None \<Rightarrow> False)))
      = Some [[6], [10]]"
proof
  show "run I c0 = Some (xs, c') \<longrightarrow>
      run (Select_Iterator I) (Select_new c0 p) = Some (filter p xs, Select_new c' p)"
    by (simp add: Select_run)
  show "map_option fst (run (Select_Iterator TableIterator_Iterator)
        (Select_new (TableIterator_new \<lparr>tbl_columns = [''c0''], tbl_rows = [[1], [6], [10::int]]\<rparr>)
           (\<lambda>row. case at row 0 of Some v \<Rightarrow> v > 5 | None \<Rightarrow> False)))
      = Some [[6], [10]]"
    by (simp add: Select_run [OF TableIterator_run_new] at_def)
qed

theorem Select_filters_witness:
  "run TableIterator_Iterator (TableIterator_new \<lparr>tbl_columns = [''c0''], tbl_rows = [[7], [2], [9::int]]\<rparr>)
     = Some ([[7], [2], [9]],
          \<lparr>ti_table = \<lparr>tbl_columns = [''c0''], tbl_rows = [[7], [2], [9]]\<rparr>, ti_input = 3, ti_end = 3\<rparr>)
   \<and> run (Select_Iterator TableIterator_Iterator)
       (Select_new (TableIterator_new \<lparr>tbl_columns = [''c0''], tbl_rows = [[7], [2], [9::int]]\<rparr>)
          (\<lambda>row. row \<noteq> [2]))
     = Some ([[7], [9]],
          Select_new \<lparr>ti_table = \<lparr>tbl_columns = [''c0''], tbl_rows = [[7], [2], [9]]\<rparr>,
                      ti_input = 3, ti_end = 3\<rparr> (\<lambda>row. row \<noteq> [2]))"
proof -
  have h: "run TableIterator_Iterator (TableIterator_new \<lparr>tbl_columns = [''c0''], tbl_rows = [[7], [2], [9::int]]\<rparr>)
     = Some ([[7], [2], [9]],
          \<lparr>ti_table = \<lparr>tbl_columns = [''c0''], tbl_rows = [[7], [2], [9]]\<rparr>, ti_input = 3, ti_end = 3\<rparr>)"
    by (simp add: TableIterator_run_new)
  from Select_filters [THEN conjunct1, rule_format, OF h, of "\<lambda>row. row \<noteq> [2]"] h
  show ?thesis by simp
qed

subsection \<open>Counting loops\<close>

lemma for_upto_done: "n \<le> i \<Longrightarrow> for_upto i n body acc = Some acc"
  by (simp add: for_upto.simps)

lemma for_upto_step:
  "i < n \<Longrightarrow> body i acc = Some acc' \<Longrightarrow> for_upto i n body acc = for_upto (Suc i) n body acc'"
  by (subst for_upto.simps) simp

lemma for_upto_fold:
  assumes "\<And>j a. i \<le> j \<Longrightarrow> j < n \<Longrightarrow> body j a = Some (h j a)"
  shows "for_upto i n body acc = Some (fold h [i..<n] acc)"
  using assms
proof (induction "n - i" arbitrary: i acc)
  case 0
  then show ?case by (simp add: for_upto_done)
next
  case (Suc k)
  then have lt: "i < n" by simp
  have "for_upto i n body acc = for_upto (Suc i) n body (h i acc)"
    using lt Suc.prems by (intro for_upto_step) auto
  also have "\<dots> = Some (fold h [Suc i..<n] (h i acc))"
    using Suc by (intro Suc.hyps(1)) auto
  finally show ?case using lt by (simp add: upt_conv_Cons)
qed

subsection \<open>Unique\<close>

lemma compare_eq_0: "compare a b = 0 \<longleftrightarrow> a = b"
  by (auto simp: compare_def)

lemma fold_equal_flag:
  "fold (\<lambda>i equal. if P i then False else equal) js acc \<longleftrightarrow> acc \<and> (\<forall>j \<in> set js. \<not> P j)"
  by (induction js arbitrary: acc) auto

lemma Unique_differs_eq:
  "Unique_differs r l = Some (length r = length l \<and> r \<noteq> l)"
proof (cases "length r = length l")
  case False
  then show ?thesis by (simp add: Unique_differs_def)
next
  case True
  have "for_upto 0 (length r)
          (\<lambda>i equal. Option.bind (at r i) (\<lambda>a. Option.bind (at l i) (\<lambda>b.
             Some (if compare a b \<noteq> 0 then False else equal)))) True
        = Some (fold (\<lambda>i equal. if r ! i \<noteq> l ! i then False else equal) [0..<length r] True)"
    by (rule for_upto_fold [where h = "\<lambda>i equal. if r ! i \<noteq> l ! i then False else equal"])
       (use True in \<open>simp add: at_def compare_eq_0\<close>)
  moreover have "(\<forall>j \<in> set [0..<length r]. \<not> r ! j \<noteq> l ! j) \<longleftrightarrow> r = l"
    using True by (auto intro: nth_equalityI)
  ultimately show ?thesis using True
    by (simp add: Unique_differs_def fold_equal_flag)
qed

lemma Unique_next_end:
  assumes "it_next I (unq_input s) = Some (None, c1)"
  shows "Unique_next I s = Some (None, s\<lparr>unq_input := c1\<rparr>)"
  using assms by (simp add: Unique_next_def Unique_while.simps [of I None])

lemma Unique_next_first:
  assumes "it_next I (unq_input s) = Some (Some x, c1)" "unq_last_unique s = None"
  shows "Unique_next I s = Some (Some x, s\<lparr>unq_input := c1, unq_last_unique := Some x\<rparr>)"
  using assms by (simp add: Unique_next_def Unique_while.simps [of I "Some x"])

lemma Unique_next_emit:
  assumes "it_next I (unq_input s) = Some (Some x, c1)" "unq_last_unique s = Some l"
    "length x = length l" "x \<noteq> l"
  shows "Unique_next I s = Some (Some x, s\<lparr>unq_input := c1, unq_last_unique := Some x\<rparr>)"
  using assms by (simp add: Unique_next_def Unique_while.simps [of I "Some x"] Unique_differs_eq)

lemma Unique_next_skip:
  assumes "it_next I (unq_input s) = Some (Some x, c1)" "unq_last_unique s = Some l"
    "length x \<noteq> length l \<or> x = l"
  shows "Unique_next I s = Unique_next I (s\<lparr>unq_input := c1\<rparr>)"
  using assms
  by (auto simp add: Unique_next_def Unique_while.simps [of I "Some x"] Unique_differs_eq)

lemma Unique_drain:
  assumes "drain I c = Some (xs, c')" "\<forall>x \<in> set xs. length x = n"
    "case l of None \<Rightarrow> True | Some m \<Rightarrow> length m = n"
  shows "\<exists>l'. drain (Unique_Iterator I) \<lparr>unq_input = c, unq_last_unique = l\<rparr>
       = Some (Unique_spec l xs, \<lparr>unq_input = c', unq_last_unique = l'\<rparr>)
     \<and> (case l' of None \<Rightarrow> True | Some m \<Rightarrow> length m = n)"
  using assms
proof (induction xs arbitrary: c l)
  case Nil
  then have "it_next I c = Some (None, c')" by (simp add: drain_Nil)
  then show ?case using Nil.prems(3)
    by (simp add: drain_Nil Unique_Iterator_def Unique_next_end)
next
  case (Cons x xs)
  from Cons.prems(1) obtain c1
    where n: "it_next I c = Some (Some x, c1)" and d: "drain I c1 = Some (xs, c')"
    by (auto simp: drain_Cons)
  from Cons.prems(2) have wx: "length x = n" and wxs: "\<forall>x \<in> set xs. length x = n"
    by simp_all
  let ?s = "\<lparr>unq_input = c, unq_last_unique = l\<rparr>"
  have wl: "case Some x of None \<Rightarrow> True | Some m \<Rightarrow> length m = n"
    using wx by simp
  consider (first) "l = None" | (emit) m where "l = Some m" "length x = length m" "x \<noteq> m"
    | (skip) m where "l = Some m" "x = m"
    using Cons.prems(3) wx by (cases l) auto
  then show ?case
  proof cases
    case first
    have "it_next (Unique_Iterator I) ?s = Some (Some x, \<lparr>unq_input = c1, unq_last_unique = Some x\<rparr>)"
      using n first Unique_next_first [of I ?s x c1] by (simp add: Unique_Iterator_def)
    moreover obtain l' where "drain (Unique_Iterator I) \<lparr>unq_input = c1, unq_last_unique = Some x\<rparr>
       = Some (Unique_spec (Some x) xs, \<lparr>unq_input = c', unq_last_unique = l'\<rparr>)"
      "case l' of None \<Rightarrow> True | Some m \<Rightarrow> length m = n"
      using Cons.IH [OF d wxs wl] by blast
    ultimately show ?thesis using first by (auto simp: drain_Cons)
  next
    case emit
    have "it_next (Unique_Iterator I) ?s = Some (Some x, \<lparr>unq_input = c1, unq_last_unique = Some x\<rparr>)"
      using n emit Unique_next_emit [of I ?s x c1 m] by (simp add: Unique_Iterator_def)
    moreover obtain l' where "drain (Unique_Iterator I) \<lparr>unq_input = c1, unq_last_unique = Some x\<rparr>
       = Some (Unique_spec (Some x) xs, \<lparr>unq_input = c', unq_last_unique = l'\<rparr>)"
      "case l' of None \<Rightarrow> True | Some m \<Rightarrow> length m = n"
      using Cons.IH [OF d wxs wl] by blast
    ultimately show ?thesis using emit by (auto simp: drain_Cons)
  next
    case skip
    have "it_next (Unique_Iterator I) ?s = it_next (Unique_Iterator I) \<lparr>unq_input = c1, unq_last_unique = l\<rparr>"
      using n skip Unique_next_skip [of I ?s x c1 m] by (simp add: Unique_Iterator_def)
    then have "drain (Unique_Iterator I) ?s = drain (Unique_Iterator I) \<lparr>unq_input = c1, unq_last_unique = l\<rparr>"
      by (rule drain_cong_next)
    moreover obtain l' where "drain (Unique_Iterator I) \<lparr>unq_input = c1, unq_last_unique = l\<rparr>
       = Some (Unique_spec l xs, \<lparr>unq_input = c', unq_last_unique = l'\<rparr>)"
      "case l' of None \<Rightarrow> True | Some m \<Rightarrow> length m = n"
      using Cons.IH [OF d wxs Cons.prems(3)] by blast
    ultimately show ?thesis using skip by auto
  qed
qed

lemma Unique_run:
  assumes "run I (unq_input s) = Some (xs, c')" "\<forall>x \<in> set xs. length x = n"
    "case unq_last_unique s of None \<Rightarrow> True | Some m \<Rightarrow> length m = n"
  shows "\<exists>l'. run (Unique_Iterator I) s
       = Some (Unique_spec (unq_last_unique s) xs, \<lparr>unq_input = c', unq_last_unique = l'\<rparr>)
     \<and> (case l' of None \<Rightarrow> True | Some m \<Rightarrow> length m = n)"
proof -
  from assms(1) obtain c
    where o: "it_open I (unq_input s) = Some c" and d: "drain I c = Some (xs, c')"
    by (auto simp: run_def split: Option.bind_splits)
  have "it_open (Unique_Iterator I) s = Some \<lparr>unq_input = c, unq_last_unique = unq_last_unique s\<rparr>"
    using o by (simp add: Unique_Iterator_def Unique_open_def)
  then show ?thesis
    using Unique_drain [OF d assms(2), of "unq_last_unique s"] assms(3) by (simp add: run_def)
qed

lemma Unique_spec_remdups_adj:
  "Unique_spec l xs = (case l of None \<Rightarrow> remdups_adj xs | Some m \<Rightarrow> tl (remdups_adj (m # xs)))"
proof (induction l xs rule: Unique_spec.induct)
  case (1 last_unique)
  then show ?case by (simp split: option.splits)
next
  case (2 x xs)
  then show ?case by (cases xs) auto
next
  case (3 l x xs)
  then show ?case by (cases xs) auto
qed

text \<open>
  C3. For every child whose rows all have one width (the row invariant of the data
  model): if opening and draining the child gives the rows \<open>xs\<close>, then opening and
  draining a newly constructed Unique over it gives \<open>Unique_spec None xs\<close>, that is, the
  first row pulled is emitted, each later row is skipped exactly when it equals the last
  emitted row, and every row that differs from the last emitted row is emitted and
  becomes the new last row; this is \<open>xs\<close> with adjacent duplicates removed. Unique over a
  table holding (1), (1), (2), (2), (2), (3) returns (1), (2), (3), and over (1), (2), (1)
  it keeps the non-adjacent duplicate.
\<close>

theorem Unique_emits_rows_that_differ:
  "(run I c0 = Some (xs, c') \<and> (\<forall>x \<in> set xs. length x = n) \<longrightarrow>
      (\<exists>l'. run (Unique_Iterator I) (Unique_new c0)
         = Some (Unique_spec None xs, \<lparr>unq_input = c', unq_last_unique = l'\<rparr>)))
   \<and> Unique_spec None xs = remdups_adj xs
   \<and> map_option fst (run (Unique_Iterator TableIterator_Iterator)
        (Unique_new (TableIterator_new
           \<lparr>tbl_columns = [''c0''], tbl_rows = [[1], [1], [2], [2], [2], [3::int]]\<rparr>)))
     = Some [[1], [2], [3]]
   \<and> map_option fst (run (Unique_Iterator TableIterator_Iterator)
        (Unique_new (TableIterator_new
           \<lparr>tbl_columns = [''c0''], tbl_rows = [[1], [2], [1::int]]\<rparr>)))
     = Some [[1], [2], [1]]"
proof (intro conjI impI)
  assume a: "run I c0 = Some (xs, c') \<and> (\<forall>x \<in> set xs. length x = n)"
  then have "run I (unq_input (Unique_new c0)) = Some (xs, c')"
    by (simp add: Unique_new_def)
  from Unique_run [OF this, of n] a
  show "\<exists>l'. run (Unique_Iterator I) (Unique_new c0)
         = Some (Unique_spec None xs, \<lparr>unq_input = c', unq_last_unique = l'\<rparr>)"
    by (auto simp add: Unique_new_def)
next
  show "Unique_spec None xs = remdups_adj xs"
    by (simp add: Unique_spec_remdups_adj)
next
  show "map_option fst (run (Unique_Iterator TableIterator_Iterator)
        (Unique_new (TableIterator_new
           \<lparr>tbl_columns = [''c0''], tbl_rows = [[1], [1], [2], [2], [2], [3::int]]\<rparr>)))
     = Some [[1], [2], [3]]"
    by code_simp
next
  show "map_option fst (run (Unique_Iterator TableIterator_Iterator)
        (Unique_new (TableIterator_new
           \<lparr>tbl_columns = [''c0''], tbl_rows = [[1], [2], [1::int]]\<rparr>)))
     = Some [[1], [2], [1]]"
    by code_simp
qed

theorem Unique_emits_rows_that_differ_witness:
  "run TableIterator_Iterator
     (TableIterator_new \<lparr>tbl_columns = [''c0''], tbl_rows = [[4], [4], [5::int]]\<rparr>)
     = Some ([[4], [4], [5]],
         \<lparr>ti_table = \<lparr>tbl_columns = [''c0''], tbl_rows = [[4], [4], [5]]\<rparr>, ti_input = 3, ti_end = 3\<rparr>)
   \<and> map_option fst (run (Unique_Iterator TableIterator_Iterator)
        (Unique_new (TableIterator_new \<lparr>tbl_columns = [''c0''], tbl_rows = [[4], [4], [5::int]]\<rparr>)))
     = Some [[4], [5]]"
proof -
  have h: "run TableIterator_Iterator
     (TableIterator_new \<lparr>tbl_columns = [''c0''], tbl_rows = [[4], [4], [5::int]]\<rparr>)
     = Some ([[4], [4], [5]],
         \<lparr>ti_table = \<lparr>tbl_columns = [''c0''], tbl_rows = [[4], [4], [5]]\<rparr>, ti_input = 3, ti_end = 3\<rparr>)"
    by (simp add: TableIterator_run_new)
  have w: "\<forall>x \<in> set [[4], [4], [5::int]]. length x = 1" by simp
  from Unique_emits_rows_that_differ [THEN conjunct1, THEN mp, OF conjI [OF h w]] h
  show ?thesis by auto
qed

subsection \<open>Re-opening Unique\<close>

text \<open>
  C2 at the failing input. Unique over a table holding the single row (1): the first drain
  returns (1); after \<^verbatim>\<open>close\<close> and \<^verbatim>\<open>open\<close> the second drain returns nothing, because
  \<^verbatim>\<open>_last_unique\<close> still holds the row of the first drain.
\<close>

theorem Unique_reopen_drops_rows:
  "run (Unique_Iterator TableIterator_Iterator)
     (Unique_new (TableIterator_new \<lparr>tbl_columns = [''c0''], tbl_rows = [[1::int]]\<rparr>))
     = Some ([[1]],
         \<lparr>unq_input = \<lparr>ti_table = \<lparr>tbl_columns = [''c0''], tbl_rows = [[1]]\<rparr>, ti_input = 1, ti_end = 1\<rparr>,
          unq_last_unique = Some [1]\<rparr>)
   \<and> run (Unique_Iterator TableIterator_Iterator)
       (it_close (Unique_Iterator TableIterator_Iterator)
         \<lparr>unq_input = \<lparr>ti_table = \<lparr>tbl_columns = [''c0''], tbl_rows = [[1::int]]\<rparr>, ti_input = 1, ti_end = 1\<rparr>,
          unq_last_unique = Some [1]\<rparr>)
     = Some ([],
         \<lparr>unq_input = \<lparr>ti_table = \<lparr>tbl_columns = [''c0''], tbl_rows = [[1]]\<rparr>, ti_input = 1, ti_end = 1\<rparr>,
          unq_last_unique = Some [1]\<rparr>)"
  by code_simp

subsection \<open>The row comparator is a strict weak ordering\<close>

lemma RowCompare_irrefl: "\<not> RowCompare cols a a"
  by (induction cols) auto

lemma RowCompare_trans: "RowCompare cols a b \<Longrightarrow> RowCompare cols b c \<Longrightarrow> RowCompare cols a c"
  by (induction cols) (auto split: if_splits)

lemma RowCompare_negtrans:
  "\<not> RowCompare cols a b \<Longrightarrow> \<not> RowCompare cols b c \<Longrightarrow> \<not> RowCompare cols a c"
  by (induction cols) (auto split: if_splits)

lemma RowCompare_swo: "strict_weak_order (RowCompare cols)"
  unfolding strict_weak_order_def
  using RowCompare_irrefl RowCompare_trans RowCompare_negtrans by blast

subsection \<open>The contract of \<^verbatim>\<open>std::sort\<close> can be met\<close>

lemma rank_less:
  assumes "strict_weak_order lt" "lt b a" "b \<in> set xs"
  shows "length (filter (\<lambda>y. lt y b) xs) < length (filter (\<lambda>y. lt y a) xs)"
proof -
  have irr: "\<And>a. \<not> lt a a" and tr: "\<And>a b c. lt a b \<Longrightarrow> lt b c \<Longrightarrow> lt a c"
    using assms(1) unfolding strict_weak_order_def by blast+
  have "filter (\<lambda>y. lt y b) xs = filter (\<lambda>y. lt y b) (filter (\<lambda>y. lt y a) xs)"
    using tr [OF _ assms(2)] by (auto intro: filter_cong)
  moreover have "b \<in> set (filter (\<lambda>y. lt y a) xs)"
    using assms(2,3) by simp
  ultimately show ?thesis
    using length_filter_less [of b "filter (\<lambda>y. lt y a) xs" "\<lambda>y. lt y b"] irr by simp
qed

lemma sort_by_rank_conforms:
  "std_sort_contract (\<lambda>lt xs. Some (sort_key (\<lambda>x. length (filter (\<lambda>y. lt y x) xs)) xs))"
  unfolding std_sort_contract_def
proof (intro allI impI)
  fix lt :: "'a \<Rightarrow> 'a \<Rightarrow> bool" and xs :: "'a list"
  assume swo: "strict_weak_order lt"
  let ?f = "\<lambda>x. length (filter (\<lambda>y. lt y x) xs)"
  have "sorted_wrt (\<lambda>a b. ?f a \<le> ?f b) (sort_key ?f xs)"
    using sorted_sort_key [of ?f xs] by (simp add: sorted_map)
  then have "sorted_wrt (\<lambda>a b. \<not> lt b a) (sort_key ?f xs)"
  proof (rule sorted_wrt_mono_rel [rotated])
    fix a b
    assume "a \<in> set (sort_key ?f xs)" "b \<in> set (sort_key ?f xs)" "?f a \<le> ?f b"
    then show "\<not> lt b a" using rank_less [OF swo, of b a xs] by auto
  qed
  then show "\<exists>ys. Some (sort_key ?f xs) = Some ys \<and> mset ys = mset xs
                \<and> sorted_wrt (\<lambda>a b. \<not> lt b a) ys"
    by simp
qed

subsection \<open>Sort materialises the child and streams the sorted rows\<close>

lemma Sort_open_while_drains:
  "it_next I c = Some (row, c1) \<Longrightarrow> drain I c = Some (xs, c') \<Longrightarrow>
   Sort_open_while I row
     \<lparr>srt_input = c1, srt_sort_columns = cols, srt_sorted = acc, srt_sorted_iterator = it\<rparr>
   = Some (None,
       \<lparr>srt_input = c', srt_sort_columns = cols, srt_sorted = acc @ xs, srt_sorted_iterator = it\<rparr>)"
proof (induction xs arbitrary: c row c1 acc)
  case Nil
  then show ?case by (simp add: drain_Nil Sort_open_while.simps [of I None])
next
  case (Cons x xs)
  then obtain c2 where n: "it_next I c = Some (Some x, c2)" and d: "drain I c2 = Some (xs, c')"
    by (auto simp: drain_Cons)
  with Cons.prems have [simp]: "row = Some x" "c1 = c2" by simp_all
  obtain row' c3 where n2: "it_next I c2 = Some (row', c3)"
    using d by (cases xs) (auto simp: drain_Nil drain_Cons)
  from Cons.IH [OF n2 d, of "acc @ [x]"] n2 show ?case
    by (simp add: Sort_open_while.simps [of I "Some x"])
qed

lemma Sort_drain_from:
  "srt_sorted_iterator s = Some i \<Longrightarrow> i \<le> length (srt_sorted s) \<Longrightarrow>
   drain (Sort_Iterator std_sort I) s
     = Some (drop i (srt_sorted s), s\<lparr>srt_sorted_iterator := Some (length (srt_sorted s))\<rparr>)"
proof (induction "length (srt_sorted s) - i" arbitrary: s i)
  case 0
  then have "it_next (Sort_Iterator std_sort I) s = Some (None, s)"
    by (simp add: Sort_Iterator_def Sort_next_def)
  then have "drain (Sort_Iterator std_sort I) s = Some ([], s)"
    by (simp add: drain_Nil)
  moreover have "s\<lparr>srt_sorted_iterator := Some (length (srt_sorted s))\<rparr> = s" using 0 by simp
  ultimately show ?case using 0 by simp
next
  case (Suc n)
  let ?s1 = "s\<lparr>srt_sorted_iterator := Some (i + 1)\<rparr>"
  have lt: "i < length (srt_sorted s)" using Suc by simp
  then have n: "it_next (Sort_Iterator std_sort I) s = Some (Some (srt_sorted s ! i), ?s1)"
    using Suc by (simp add: Sort_Iterator_def Sort_next_def)
  have "drain (Sort_Iterator std_sort I) ?s1
      = Some (drop (i + 1) (srt_sorted ?s1), ?s1\<lparr>srt_sorted_iterator := Some (length (srt_sorted ?s1))\<rparr>)"
    using Suc by (intro Suc.hyps(1)) auto
  then have "drain (Sort_Iterator std_sort I) ?s1
      = Some (drop (Suc i) (srt_sorted s), s\<lparr>srt_sorted_iterator := Some (length (srt_sorted s))\<rparr>)"
    by simp
  from drain_next_Some [OF n this] show ?case
    using lt by (simp add: Cons_nth_drop_Suc)
qed

lemma Sort_open_materialises:
  assumes "run I c0 = Some (xs, c')" "std_sort (RowCompare cols) xs = Some ys"
  shows "Sort_open std_sort I (Sort_new c0 cols)
     = Some \<lparr>srt_input = c', srt_sort_columns = cols, srt_sorted = ys,
             srt_sorted_iterator = Some 0\<rparr>"
proof -
  from assms obtain c where o: "it_open I c0 = Some c" and d: "drain I c = Some (xs, c')"
    by (auto simp: run_def split: Option.bind_splits)
  obtain row c1 where n: "it_next I c = Some (row, c1)"
    using d by (cases xs) (auto simp: drain_Nil drain_Cons)
  from Sort_open_while_drains [OF n d, of cols "[]" None] o n assms(2)
  show ?thesis by (simp add: Sort_open_def Sort_new_def)
qed

lemma Sort_run:
  assumes "run I c0 = Some (xs, c')" "std_sort (RowCompare cols) xs = Some ys"
  shows "run (Sort_Iterator std_sort I) (Sort_new c0 cols)
     = Some (ys, \<lparr>srt_input = c', srt_sort_columns = cols, srt_sorted = ys,
                  srt_sorted_iterator = Some (length ys)\<rparr>)"
proof -
  let ?st = "\<lparr>srt_input = c', srt_sort_columns = cols,
             srt_sorted = ys, srt_sorted_iterator = Some 0\<rparr>"
  have "it_open (Sort_Iterator std_sort I) (Sort_new c0 cols) = Some ?st"
    using Sort_open_materialises [where std_sort = std_sort, OF assms]
    by (simp add: Sort_Iterator_def)
  moreover have "drain (Sort_Iterator std_sort I) ?st
     = Some (drop 0 (srt_sorted ?st), ?st\<lparr>srt_sorted_iterator := Some (length (srt_sorted ?st))\<rparr>)"
    by (rule Sort_drain_from) simp_all
  ultimately show ?thesis by (simp add: run_def)
qed

lemma RowCompare_single: "RowCompare [c] a b \<longleftrightarrow> a ! c < b ! c"
  by auto

lemma sorted_perm_312:
  assumes "mset ys = mset [[3], [1], [2::int]]" "sorted_wrt (\<lambda>a b. \<not> RowCompare [0] b a) ys"
  shows "ys = [[1], [2], [3]]"
proof -
  have "length ys = 3" using arg_cong [OF assms(1), of size] by simp
  then obtain a b c where ys: "ys = [a, b, c]"
    by (cases ys; cases "tl ys"; cases "tl (tl ys)") auto
  have s: "set ys = {[3], [1], [2]}" using arg_cong [OF assms(1), of set_mset] by simp
  have "a \<in> set ys" "b \<in> set ys" "c \<in> set ys" unfolding ys by simp_all
  then have mem: "a \<in> {[3], [1], [2]}" "b \<in> {[3], [1], [2]}" "c \<in> {[3], [1], [2]}"
    unfolding s .
  have "distinct ys" using mset_eq_imp_distinct_iff [OF assms(1)] by simp
  then have d: "a \<noteq> b" "a \<noteq> c" "b \<noteq> c" unfolding ys by simp_all
  from assms(2) have ord: "\<not> b ! 0 < a ! 0" "\<not> c ! 0 < a ! 0" "\<not> c ! 0 < b ! 0"
    unfolding ys by (simp_all add: RowCompare_single del: RowCompare.simps)
  from mem d ord have "a = [1] \<and> b = [2] \<and> c = [3]"
    by (elim insertE emptyE; simp)
  then show ?thesis unfolding ys by simp
qed

text \<open>
  C1, amended. For every function \<^verbatim>\<open>std::sort\<close> may be and every child: if opening and
  draining the child gives the rows \<open>xs\<close>, then \<^verbatim>\<open>Sort::open\<close> returns with the child
  drained to its end-of-stream, and the rows that \<^verbatim>\<open>Sort::next\<close> returns up to
  end-of-stream are a permutation of \<open>xs\<close> in which no row goes before an earlier one
  under the row comparator over the sort columns. Sort by column 0 over (3), (1), (2)
  yields (1), (2), (3), with any such function and with the \<^verbatim>\<open>std::sort\<close> of GNU
  libstdc++. Rows tied on all sort columns come in the order \<^verbatim>\<open>std::sort\<close> leaves them
  in.
\<close>

theorem Sort_sorted_permutation:
  "(std_sort_contract std_sort \<and> run I c0 = Some (xs, c') \<longrightarrow>
      (\<exists>ys. Sort_open std_sort I (Sort_new c0 cols)
              = Some \<lparr>srt_input = c', srt_sort_columns = cols, srt_sorted = ys,
                      srt_sorted_iterator = Some 0\<rparr>
         \<and> run (Sort_Iterator std_sort I) (Sort_new c0 cols)
              = Some (ys, \<lparr>srt_input = c', srt_sort_columns = cols, srt_sorted = ys,
                           srt_sorted_iterator = Some (length ys)\<rparr>)
         \<and> mset ys = mset xs
         \<and> sorted_wrt (\<lambda>a b. \<not> RowCompare cols b a) ys))
   \<and> (std_sort_contract std_sort' \<longrightarrow>
        map_option fst (run (Sort_Iterator std_sort' TableIterator_Iterator)
          (Sort_new (TableIterator_new \<lparr>tbl_columns = [''c0''], tbl_rows = [[3], [1], [2::int]]\<rparr>) [0]))
        = Some [[1], [2], [3]])
   \<and> map_option fst (run (Sort_Iterator (std_sort_gnu partial_sort) TableIterator_Iterator)
        (Sort_new (TableIterator_new \<lparr>tbl_columns = [''c0''], tbl_rows = [[3], [1], [2::int]]\<rparr>) [0]))
      = Some [[1], [2], [3]]"
proof (intro conjI impI)
  assume a: "std_sort_contract std_sort \<and> run I c0 = Some (xs, c')"
  then obtain ys where e: "std_sort (RowCompare cols) xs = Some ys"
    and c: "mset ys = mset xs" "sorted_wrt (\<lambda>a b. \<not> RowCompare cols b a) ys"
    using RowCompare_swo [of cols] unfolding std_sort_contract_def by blast
  from a have r: "run I c0 = Some (xs, c')" by blast
  show "\<exists>ys. Sort_open std_sort I (Sort_new c0 cols)
              = Some \<lparr>srt_input = c', srt_sort_columns = cols, srt_sorted = ys,
                      srt_sorted_iterator = Some 0\<rparr>
         \<and> run (Sort_Iterator std_sort I) (Sort_new c0 cols)
              = Some (ys, \<lparr>srt_input = c', srt_sort_columns = cols, srt_sorted = ys,
                           srt_sorted_iterator = Some (length ys)\<rparr>)
         \<and> mset ys = mset xs
         \<and> sorted_wrt (\<lambda>a b. \<not> RowCompare cols b a) ys"
    using Sort_open_materialises [where std_sort = std_sort, OF r e]
      Sort_run [where std_sort = std_sort, OF r e] c
    by (intro exI [of _ ys]) simp
next
  assume a: "std_sort_contract std_sort'"
  let ?xs = "[[3], [1], [2::int]]"
  obtain ys where e: "std_sort' (RowCompare [0]) ?xs = Some ys"
    and c: "mset ys = mset ?xs" "sorted_wrt (\<lambda>a b. \<not> RowCompare [0] b a) ys"
    using a RowCompare_swo [of "[0]"] unfolding std_sort_contract_def by blast
  have ys: "ys = [[1], [2], [3]]"
    using c by (rule sorted_perm_312)
  have r: "run TableIterator_Iterator (TableIterator_new \<lparr>tbl_columns = [''c0''], tbl_rows = ?xs\<rparr>)
      = Some (?xs, \<lparr>ti_table = \<lparr>tbl_columns = [''c0''], tbl_rows = ?xs\<rparr>, ti_input = 3, ti_end = 3\<rparr>)"
    by (simp add: TableIterator_run_new)
  show "map_option fst (run (Sort_Iterator std_sort' TableIterator_Iterator)
          (Sort_new (TableIterator_new \<lparr>tbl_columns = [''c0''], tbl_rows = ?xs\<rparr>) [0]))
        = Some [[1], [2], [3]]"
    using Sort_run [where std_sort = std_sort', OF r e] ys by simp
next
  show "map_option fst (run (Sort_Iterator (std_sort_gnu partial_sort) TableIterator_Iterator)
        (Sort_new (TableIterator_new \<lparr>tbl_columns = [''c0''], tbl_rows = [[3], [1], [2::int]]\<rparr>) [0]))
      = Some [[1], [2], [3]]"
    by code_simp
qed

theorem Sort_sorted_permutation_witness:
  "std_sort_contract
     (\<lambda>lt (xs :: int Row list). Some (sort_key (\<lambda>x. length (filter (\<lambda>y. lt y x) xs)) xs))
   \<and> run TableIterator_Iterator
       (TableIterator_new \<lparr>tbl_columns = [''k'', ''v''], tbl_rows = [[2, 7], [1, 8::int]]\<rparr>)
     = Some ([[2, 7], [1, 8]],
         \<lparr>ti_table = \<lparr>tbl_columns = [''k'', ''v''], tbl_rows = [[2, 7], [1, 8]]\<rparr>,
          ti_input = 2, ti_end = 2\<rparr>)
   \<and> map_option fst (run
        (Sort_Iterator
           (\<lambda>lt xs. Some (sort_key (\<lambda>x. length (filter (\<lambda>y. lt y x) xs)) xs))
           TableIterator_Iterator)
        (Sort_new (TableIterator_new \<lparr>tbl_columns = [''k'', ''v''], tbl_rows = [[2, 7], [1, 8::int]]\<rparr>) [0]))
     = Some [[1, 8], [2, 7]]
   \<and> map_option fst (run
        (Sort_Iterator
           (\<lambda>lt xs. Some (sort_key (\<lambda>x. length (filter (\<lambda>y. lt y x) xs)) xs))
           TableIterator_Iterator)
        (Sort_new (TableIterator_new \<lparr>tbl_columns = [''c0''], tbl_rows = [[3], [1], [2::int]]\<rparr>) [0]))
     = Some [[1], [2], [3]]"
proof -
  let ?xs = "[[2, 7], [1, 8::int]]"
  let ?srt = "\<lambda>lt (xs :: int Row list). Some (sort_key (\<lambda>x. length (filter (\<lambda>y. lt y x) xs)) xs)"
  have h1: "std_sort_contract ?srt"
    by (rule sort_by_rank_conforms)
  have h2: "run TableIterator_Iterator
       (TableIterator_new \<lparr>tbl_columns = [''k'', ''v''], tbl_rows = ?xs\<rparr>)
     = Some (?xs, \<lparr>ti_table = \<lparr>tbl_columns = [''k'', ''v''], tbl_rows = ?xs\<rparr>,
          ti_input = 2, ti_end = 2\<rparr>)"
    by (simp add: TableIterator_run_new)
  have e: "?srt (RowCompare [0]) ?xs = Some [[1, 8], [2, 7]]"
    by simp
  from Sort_sorted_permutation [THEN conjunct1, THEN mp, OF conjI [OF h1 h2]]
  obtain ys where
    o: "Sort_open ?srt TableIterator_Iterator
          (Sort_new (TableIterator_new \<lparr>tbl_columns = [''k'', ''v''], tbl_rows = ?xs\<rparr>) [0])
        = Some \<lparr>srt_input = \<lparr>ti_table = \<lparr>tbl_columns = [''k'', ''v''], tbl_rows = ?xs\<rparr>,
                  ti_input = 2, ti_end = 2\<rparr>, srt_sort_columns = [0], srt_sorted = ys,
                  srt_sorted_iterator = Some 0\<rparr>"
    and r: "run (Sort_Iterator ?srt TableIterator_Iterator)
          (Sort_new (TableIterator_new \<lparr>tbl_columns = [''k'', ''v''], tbl_rows = ?xs\<rparr>) [0])
        = Some (ys, \<lparr>srt_input = \<lparr>ti_table = \<lparr>tbl_columns = [''k'', ''v''], tbl_rows = ?xs\<rparr>,
                  ti_input = 2, ti_end = 2\<rparr>, srt_sort_columns = [0], srt_sorted = ys,
                  srt_sorted_iterator = Some (length ys)\<rparr>)"
    by blast
  have "Sort_open ?srt TableIterator_Iterator
          (Sort_new (TableIterator_new \<lparr>tbl_columns = [''k'', ''v''], tbl_rows = ?xs\<rparr>) [0])
        = Some \<lparr>srt_input = \<lparr>ti_table = \<lparr>tbl_columns = [''k'', ''v''], tbl_rows = ?xs\<rparr>,
                  ti_input = 2, ti_end = 2\<rparr>, srt_sort_columns = [0],
                  srt_sorted = [[1, 8], [2, 7]],
                  srt_sorted_iterator = Some 0\<rparr>"
    by (rule Sort_open_materialises [where std_sort = ?srt, OF h2 e])
  with o have "ys = [[1, 8], [2, 7]]" by simp
  with r have r': "map_option fst (run (Sort_Iterator ?srt TableIterator_Iterator)
        (Sort_new (TableIterator_new \<lparr>tbl_columns = [''k'', ''v''], tbl_rows = ?xs\<rparr>) [0]))
     = Some [[1, 8], [2, 7]]" by simp
  from Sort_sorted_permutation [THEN conjunct2, THEN conjunct1, THEN mp, OF h1] h1 h2 r'
  show ?thesis by simp
qed

text \<open>
  C1 as stated fails: the sort is not stable. With the \<^verbatim>\<open>std::sort\<close> of GNU libstdc++,
  Sort by column 0 over the seventeen rows (1,0), (1,1), \<dots>, (1,16), which are all tied
  on the sort column, returns (1,8) first and (1,0) tenth: the partitioning step of
  the introsort swaps tied rows. The heap sort fallback is not reached (the run returns
  although the fallback given here never does).
\<close>

theorem Sort_reorders_tied_rows:
  "map_option fst (run
     (Sort_Iterator (std_sort_gnu (\<lambda>cmp v first middle last'. None)) TableIterator_Iterator)
     (Sort_new (TableIterator_new
        \<lparr>tbl_columns = [''k'', ''v''],
         tbl_rows = [[1, 0], [1, 1], [1, 2], [1, 3], [1, 4], [1, 5], [1, 6], [1, 7], [1, 8],
                     [1, 9], [1, 10], [1, 11], [1, 12], [1, 13], [1, 14], [1, 15], [1, 16::int]]\<rparr>)
        [0]))
   = Some [[1, 8], [1, 16], [1, 15], [1, 14], [1, 13], [1, 12], [1, 11], [1, 10], [1, 9],
           [1, 0], [1, 7], [1, 6], [1, 5], [1, 4], [1, 3], [1, 2], [1, 1]]
   \<and> \<not> RowCompare [0] [1, 0] [1, 8::int] \<and> \<not> RowCompare [0] [1, 8] [1, 0::int]"
  by code_simp

subsection \<open>IndexScan returns the entries whose leading key column is in range\<close>

lemma IndexScan_while_end:
  "is_input s = Some i \<Longrightarrow> is_end s = Some i \<Longrightarrow> IndexScan_while s = Some (None, s)"
  by (subst IndexScan_while.simps) simp

lemma IndexScan_while_hit:
  assumes "is_input s = Some i" "is_end s = Some e" "i \<noteq> e" "i < length (idx_entries (is_index s))"
    "is_lo s = Some lo" "is_hi s = Some hi" "lo \<noteq> []" "hi \<noteq> []"
    "fst (idx_entries (is_index s) ! i) \<noteq> []"
    "lo ! 0 \<le> fst (idx_entries (is_index s) ! i) ! 0"
    "fst (idx_entries (is_index s) ! i) ! 0 \<le> hi ! 0"
  shows "IndexScan_while s
     = Some (Some (snd (idx_entries (is_index s) ! i)), s\<lparr>is_input := Some (i + 1)\<rparr>)"
  using assms by (subst IndexScan_while.simps) (simp add: at_def)

lemma IndexScan_while_miss:
  assumes "is_input s = Some i" "is_end s = Some e" "i \<noteq> e" "i < length (idx_entries (is_index s))"
    "is_lo s = Some lo" "is_hi s = Some hi" "lo \<noteq> []" "hi \<noteq> []"
    "fst (idx_entries (is_index s) ! i) \<noteq> []"
    "\<not> (lo ! 0 \<le> fst (idx_entries (is_index s) ! i) ! 0
        \<and> fst (idx_entries (is_index s) ! i) ! 0 \<le> hi ! 0)"
  shows "IndexScan_while s = IndexScan_while (s\<lparr>is_input := Some (i + 1)\<rparr>)"
  using assms by (subst IndexScan_while.simps) (auto simp add: at_def)

lemma IndexScan_drain_from:
  assumes "is_lo s = Some lo" "is_hi s = Some hi" "lo \<noteq> []" "hi \<noteq> []"
    "\<forall>e \<in> set (idx_entries (is_index s)). fst e \<noteq> []"
  shows "is_input s = Some i \<Longrightarrow> is_end s = Some (length (idx_entries (is_index s))) \<Longrightarrow>
    i \<le> length (idx_entries (is_index s)) \<Longrightarrow>
    drain IndexScan_Iterator s
      = Some (map snd (filter (\<lambda>e. lo ! 0 \<le> fst e ! 0 \<and> fst e ! 0 \<le> hi ! 0)
                 (drop i (idx_entries (is_index s)))),
          s\<lparr>is_input := Some (length (idx_entries (is_index s)))\<rparr>)"
  using assms
proof (induction "length (idx_entries (is_index s)) - i" arbitrary: s i)
  case 0
  then have i: "i = length (idx_entries (is_index s))" by simp
  have "IndexScan_next s = Some (None, s)"
    using 0 i by (simp add: IndexScan_next_def IndexScan_while_end)
  then have "drain IndexScan_Iterator s = Some ([], s)"
    by (simp add: drain_Nil IndexScan_Iterator_def)
  moreover have "s\<lparr>is_input := Some (length (idx_entries (is_index s)))\<rparr> = s"
    using 0 i by simp
  ultimately show ?case using i by simp
next
  case (Suc n)
  let ?es = "idx_entries (is_index s)"
  let ?s1 = "s\<lparr>is_input := Some (i + 1)\<rparr>"
  have lt: "i < length ?es" using Suc by simp
  then have ne: "?es \<noteq> []" by auto
  have key: "fst (?es ! i) \<noteq> []" using Suc.prems(8) lt by simp
  have IH: "drain IndexScan_Iterator ?s1
      = Some (map snd (filter (\<lambda>e. lo ! 0 \<le> fst e ! 0 \<and> fst e ! 0 \<le> hi ! 0) (drop (Suc i) ?es)),
          s\<lparr>is_input := Some (length ?es)\<rparr>)"
    using Suc.hyps(1) [of ?s1 "i + 1"] Suc.hyps(2) Suc.prems lt by simp
  have d: "drop i ?es = ?es ! i # drop (Suc i) ?es"
    using lt by (simp add: Cons_nth_drop_Suc)
  show ?case
  proof (cases "lo ! 0 \<le> fst (?es ! i) ! 0 \<and> fst (?es ! i) ! 0 \<le> hi ! 0")
    case True
    have "IndexScan_while s = Some (Some (snd (?es ! i)), ?s1)"
      using Suc.prems lt key True by (intro IndexScan_while_hit [where lo = lo and hi = hi]) auto
    then have "it_next IndexScan_Iterator s = Some (Some (snd (?es ! i)), ?s1)"
      using ne by (simp add: IndexScan_Iterator_def IndexScan_next_def)
    from drain_next_Some [OF this IH] show ?thesis using True d by simp
  next
    case False
    have "IndexScan_while s = IndexScan_while ?s1"
      using Suc.prems lt key False by (intro IndexScan_while_miss [where lo = lo and hi = hi]) auto
    then have "it_next IndexScan_Iterator s = it_next IndexScan_Iterator ?s1"
      using ne by (simp add: IndexScan_Iterator_def IndexScan_next_def)
    then have "drain IndexScan_Iterator s = drain IndexScan_Iterator ?s1"
      by (rule drain_cong_next)
    then show ?thesis using IH False d by simp
  qed
qed

lemma IndexScan_run:
  assumes "is_lo s = Some lo" "is_hi s = Some hi" "lo \<noteq> []" "hi \<noteq> []"
    "\<forall>e \<in> set (idx_entries (is_index s)). fst e \<noteq> []"
  shows "run IndexScan_Iterator s
      = Some (map snd (filter (\<lambda>e. lo ! 0 \<le> fst e ! 0 \<and> fst e ! 0 \<le> hi ! 0)
                 (idx_entries (is_index s))),
          s\<lparr>is_input := Some (length (idx_entries (is_index s))),
            is_end := Some (length (idx_entries (is_index s)))\<rparr>)"
proof -
  let ?s0 = "s\<lparr>is_input := Some 0, is_end := Some (length (idx_entries (is_index s)))\<rparr>"
  have "drain IndexScan_Iterator ?s0
      = Some (map snd (filter (\<lambda>e. lo ! 0 \<le> fst e ! 0 \<and> fst e ! 0 \<le> hi ! 0)
                 (drop 0 (idx_entries (is_index ?s0)))),
          ?s0\<lparr>is_input := Some (length (idx_entries (is_index ?s0)))\<rparr>)"
    using assms by (intro IndexScan_drain_from) auto
  then show ?thesis
    by (simp add: run_def IndexScan_Iterator_def IndexScan_open_def)
qed

text \<open>
  C8. An IndexScan constructed with \<^verbatim>\<open>hi == NULL\<close> has \<^verbatim>\<open>lo\<close> as its upper bound. For every
  index whose keys have a leading column, an IndexScan whose upper bound is its lower
  bound \<open>lo\<close> returns, opened and drained, exactly the data rows of the entries whose
  leading key column equals \<open>lo[0]\<close>, in index order.
\<close>

theorem IndexScan_point_lookup:
  "is_hi (IndexScan_new index lo' None) = lo'
   \<and> (lo \<noteq> [] \<and> (\<forall>e \<in> set (idx_entries index). fst e \<noteq> []) \<and> (hi = None \<or> hi = Some lo) \<longrightarrow>
        map_option fst (run IndexScan_Iterator (IndexScan_new index (Some lo) hi))
          = Some (map snd (filter (\<lambda>e. fst e ! 0 = lo ! 0) (idx_entries index))))"
proof (intro conjI impI)
  show "is_hi (IndexScan_new index lo' None) = lo'" by (simp add: IndexScan_new_def)
next
  assume a: "lo \<noteq> [] \<and> (\<forall>e \<in> set (idx_entries index). fst e \<noteq> []) \<and> (hi = None \<or> hi = Some lo)"
  let ?s = "IndexScan_new index (Some lo) hi"
  have "is_lo ?s = Some lo" "is_hi ?s = Some lo" "is_index ?s = index"
    using a by (auto simp: IndexScan_new_def)
  then have "map_option fst (run IndexScan_Iterator ?s)
      = Some (map snd (filter (\<lambda>e. lo ! 0 \<le> fst e ! 0 \<and> fst e ! 0 \<le> lo ! 0) (idx_entries index)))"
    using a IndexScan_run [of ?s lo lo] by simp
  moreover have "(\<lambda>e :: 'a list \<times> 'a list. lo ! 0 \<le> fst e ! 0 \<and> fst e ! 0 \<le> lo ! 0)
      = (\<lambda>e. fst e ! 0 = lo ! 0)"
    by (rule ext) auto
  ultimately show "map_option fst (run IndexScan_Iterator ?s)
      = Some (map snd (filter (\<lambda>e. fst e ! 0 = lo ! 0) (idx_entries index)))"
    by simp
qed

theorem IndexScan_point_lookup_witness:
  "map_option fst (run IndexScan_Iterator
     (IndexScan_new \<lparr>idx_entries = [([1, 5], [10]), ([2, 7], [20]), ([2, 9], [30]), ([3, 1], [40::int])],
                     idx_n_columns = 1\<rparr> (Some [2, 100]) None))
   = Some [[20], [30]]"
proof -
  let ?index = "\<lparr>idx_entries = [([1, 5], [10]), ([2, 7], [20]), ([2, 9], [30]), ([3, 1], [40::int])],
                     idx_n_columns = 1\<rparr>"
  have h: "[2, 100::int] \<noteq> [] \<and> (\<forall>e \<in> set (idx_entries ?index). fst e \<noteq> [])
      \<and> (None = None \<or> None = Some [2, 100::int])"
    by simp
  from IndexScan_point_lookup [THEN conjunct2, THEN mp, OF h] show ?thesis by simp
qed

text \<open>
  C5. The match predicate of NestedLoopsJoin compares the first selected join column of
  the left row with the first selected join column of the right row and nothing else:
  rows equal there and unequal on a later selected column match. IndexScan keeps an
  entry exactly when column 0 of its key lies between column 0 of \<open>lo\<close> and column 0 of
  \<open>hi\<close>, whatever the other key columns are.
\<close>

theorem first_column_only:
  "(cs_selected lsel = lc # lcs \<and> cs_selected rsel = rc # rcs
      \<and> lc < length left \<and> rc < length right \<longrightarrow>
        match lsel rsel left right = Some (left ! lc = right ! rc))
   \<and> match \<lparr>cs_n_columns = 2, cs_selected = [0, 1]\<rparr> \<lparr>cs_n_columns = 2, cs_selected = [0, 1]\<rparr>
        [1, 5] [1, 6::int] = Some True
   \<and> (lo \<noteq> [] \<and> hi \<noteq> [] \<and> (\<forall>e \<in> set (idx_entries index). fst e \<noteq> []) \<longrightarrow>
        map_option fst (run IndexScan_Iterator (IndexScan_new index (Some lo) (Some hi)))
          = Some (map snd (filter (\<lambda>e. lo ! 0 \<le> fst e ! 0 \<and> fst e ! 0 \<le> hi ! 0)
                     (idx_entries index))))
   \<and> map_option fst (run IndexScan_Iterator
        (IndexScan_new \<lparr>idx_entries = [([2, 9], [30::int])], idx_n_columns = 1\<rparr>
           (Some [2, 0]) (Some [2, 0])))
      = Some [[30]]"
proof (intro conjI impI)
  assume "cs_selected lsel = lc # lcs \<and> cs_selected rsel = rc # rcs
      \<and> lc < length left \<and> rc < length right"
  then show "match lsel rsel left right = Some (left ! lc = right ! rc)"
    by (simp add: match_def selected_def at_def)
next
  show "match \<lparr>cs_n_columns = 2, cs_selected = [0, 1]\<rparr> \<lparr>cs_n_columns = 2, cs_selected = [0, 1]\<rparr>
        [1, 5] [1, 6::int] = Some True"
    by (simp add: match_def selected_def at_def)
next
  assume a: "lo \<noteq> [] \<and> hi \<noteq> [] \<and> (\<forall>e \<in> set (idx_entries index). fst e \<noteq> [])"
  let ?s = "IndexScan_new index (Some lo) (Some hi)"
  have "is_lo ?s = Some lo" "is_hi ?s = Some hi" "is_index ?s = index"
    by (auto simp: IndexScan_new_def)
  then show "map_option fst (run IndexScan_Iterator ?s)
          = Some (map snd (filter (\<lambda>e. lo ! 0 \<le> fst e ! 0 \<and> fst e ! 0 \<le> hi ! 0)
                     (idx_entries index)))"
    using a IndexScan_run [of ?s lo hi] by simp
next
  let ?s = "IndexScan_new \<lparr>idx_entries = [([2, 9], [30::int])], idx_n_columns = 1\<rparr>
           (Some [2, 0]) (Some [2, 0])"
  have "is_lo ?s = Some [2, 0]" "is_hi ?s = Some [2, 0]"
    "is_index ?s = \<lparr>idx_entries = [([2, 9], [30::int])], idx_n_columns = 1\<rparr>"
    by (auto simp: IndexScan_new_def)
  then show "map_option fst (run IndexScan_Iterator ?s) = Some [[30]]"
    using IndexScan_run [of ?s "[2, 0]" "[2, 0]"] by simp
qed

theorem first_column_only_witness:
  "match \<lparr>cs_n_columns = 2, cs_selected = [1, 0]\<rparr> \<lparr>cs_n_columns = 3, cs_selected = [2, 0]\<rparr>
      [4, 7] [8, 9, 7::int] = Some True
   \<and> map_option fst (run IndexScan_Iterator
        (IndexScan_new \<lparr>idx_entries = [([1, 5], [10]), ([2, 7], [20]), ([3, 0], [30]), ([4, 2], [40::int])],
                        idx_n_columns = 1\<rparr> (Some [2, 6]) (Some [3, 1])))
      = Some [[20], [30]]"
proof -
  let ?index = "\<lparr>idx_entries = [([1, 5], [10]), ([2, 7], [20]), ([3, 0], [30]), ([4, 2], [40::int])],
                        idx_n_columns = 1\<rparr>"
  have h1: "cs_selected \<lparr>cs_n_columns = 2, cs_selected = [1, 0]\<rparr> = 1 # [0]
      \<and> cs_selected \<lparr>cs_n_columns = 3, cs_selected = [2, 0]\<rparr> = 2 # [0]
      \<and> 1 < length [4, 7::int] \<and> 2 < length [8, 9, 7::int]"
    by simp
  have h2: "[2, 6::int] \<noteq> [] \<and> [3, 1::int] \<noteq> [] \<and> (\<forall>e \<in> set (idx_entries ?index). fst e \<noteq> [])"
    by simp
  from first_column_only [THEN conjunct1, THEN mp, OF h1]
    first_column_only [THEN conjunct2, THEN conjunct2, THEN conjunct1, THEN mp, OF h2]
  show ?thesis by simp
qed

subsection \<open>The joined row\<close>

lemma fold_append_if:
  "fold (\<lambda>i row. if P i then row @ [f i] else row) js acc = acc @ map f (filter P js)"
  by (induction js arbitrary: acc) auto

lemma fold_append_all: "fold (\<lambda>i row. row @ [f i]) js acc = acc @ map f js"
  by (induction js arbitrary: acc) auto

lemma copy_columns: "for_upto 0 (length row)
     (\<lambda>i join_row. Option.bind (at row i) (\<lambda>v. Some (join_row @ [v]))) acc = Some (acc @ row)"
proof -
  have "for_upto 0 (length row)
     (\<lambda>i join_row. Option.bind (at row i) (\<lambda>v. Some (join_row @ [v]))) acc
     = Some (fold (\<lambda>i join_row. join_row @ [row ! i]) [0..<length row] acc)"
    by (rule for_upto_fold [where h = "\<lambda>i join_row. join_row @ [row ! i]"]) (simp add: at_def)
  then show ?thesis by (simp add: fold_append_all map_nth)
qed

lemma map_nth_except:
  "map ((!) row) (filter (\<lambda>i. i \<noteq> rc) [0..<length row]) = take rc row @ drop (Suc rc) row"
proof (induction row arbitrary: rc rule: rev_induct)
  case Nil
  then show ?case by simp
next
  case (snoc x xs)
  have m: "map ((!) (xs @ [x])) (filter (\<lambda>i. i \<noteq> rc) [0..<length xs])
      = map ((!) xs) (filter (\<lambda>i. i \<noteq> rc) [0..<length xs])"
    by (rule map_cong) (auto simp: nth_append)
  show ?case
  proof (cases "rc < length xs")
    case True
    then show ?thesis using snoc [of rc] m by (simp add: Suc_diff_le)
  next
    case False
    then show ?thesis using snoc [of rc] m by (cases "rc = length xs") auto
  qed
qed

lemma join_rows_if_match_eq:
  assumes "selected right_join_columns 0 = Some rc"
  shows "join_rows_if_match right_join_columns left right
     = Some (left @ take rc right @ drop (Suc rc) right)"
proof -
  have "for_upto 0 (length right)
          (\<lambda>i join_row.
             Option.bind (selected right_join_columns 0) (\<lambda>rc.
               if i \<noteq> rc then Option.bind (at right i) (\<lambda>v. Some (join_row @ [v]))
               else Some join_row))
          left
        = Some (fold (\<lambda>i join_row. if i \<noteq> rc then join_row @ [right ! i] else join_row)
                  [0..<length right] left)"
    by (rule for_upto_fold [where h = "\<lambda>i join_row. if i \<noteq> rc then join_row @ [right ! i] else join_row"])
       (use assms in \<open>simp add: at_def\<close>)
  then show ?thesis
    using copy_columns [of left "[]"]
    by (simp add: join_rows_if_match_def fold_append_if map_nth_except)
qed

lemma length_join_row:
  "rc < length right \<Longrightarrow> length (left @ take rc right @ drop (Suc rc) right)
     = length left + length right - 1"
  by auto

subsection \<open>One pass through the loop of NestedLoopsJoin::next\<close>








subsection \<open>Which left row the loop of NestedLoopsJoin::next stops at\<close>




subsection \<open>One call of NestedLoopsJoin::next\<close>





subsection \<open>The loop of NestedLoopsJoin::next returns\<close>





lemma NLJ_while_exit:
  assumes "NestedLoopsJoin_while L R r_row s = Some y"
  shows "nlj_left_join_columns (snd y) = nlj_left_join_columns s
    \<and> nlj_right_join_columns (snd y) = nlj_right_join_columns s
    \<and> (\<forall>left right. nlj_left_row (snd y) = Some left \<longrightarrow> fst y = Some right \<longrightarrow>
          match (nlj_left_join_columns s) (nlj_right_join_columns s) left right = Some True)"
proof (rule NestedLoopsJoin_while.raw_induct
    [where P = "\<lambda>L R r_row s y. nlj_left_join_columns (snd y) = nlj_left_join_columns s
    \<and> nlj_right_join_columns (snd y) = nlj_right_join_columns s
    \<and> (\<forall>left right. nlj_left_row (snd y) = Some left \<longrightarrow> fst y = Some right \<longrightarrow>
          match (nlj_left_join_columns s) (nlj_right_join_columns s) left right = Some True)",
     OF _ assms], goal_cases)
  case (1 f L R r_row s y)
  note IH = 1(1) and body = 1(2)
  show ?case
  proof (cases "nlj_left_row s")
    case None
    then show ?thesis using body by auto
  next
    case (Some x)
    note x = this
    show ?thesis
    proof (cases r_row)
      case None
      then show ?thesis using body x by auto
    next
      case (Some r)
      then obtain m where m: "match (nlj_left_join_columns s) (nlj_right_join_columns s) x r = Some m"
        using body x by (auto split: Option.bind_splits)
      show ?thesis
      proof (cases m)
        case True
        then show ?thesis using body x Some m by auto
      next
        case False
        then obtain r_row2 s2 where c: "f L R r_row2 s2 = Some y"
          "nlj_left_join_columns s2 = nlj_left_join_columns s"
          "nlj_right_join_columns s2 = nlj_right_join_columns s"
          using body x Some m
          by (auto split: Option.bind_splits if_splits prod.splits)
        from IH [OF c(1)] c(2,3) show ?thesis by simp
      qed
    qed
  qed
qed


lemma NLJ_new_fields:
  assumes "NestedLoopsJoin_new L l0 lcols R r0 rcols = Some s0"
  shows "s0 = \<lparr>nlj_left = l0, nlj_right = r0,
               nlj_left_join_columns = \<lparr>cs_n_columns = it_n_columns L l0, cs_selected = lcols\<rparr>,
               nlj_right_join_columns = \<lparr>cs_n_columns = it_n_columns R r0, cs_selected = rcols\<rparr>,
               nlj_left_row = None\<rparr>"
    and "\<forall>c \<in> set lcols. c < it_n_columns L l0" and "\<forall>c \<in> set rcols. c < it_n_columns R r0"
    and "length lcols = length rcols"
  using assms
  by (auto simp: NestedLoopsJoin_new_def ColumnSelector_new_def n_selected_def
      split: Option.bind_splits if_splits)



subsection \<open>A Unique as the left child of a NestedLoopsJoin\<close>



subsection \<open>The rows NestedLoopsJoin returns\<close>




lemma NLJ_next_emits:
  assumes "NestedLoopsJoin_next L R s = Some (Some row, s')"
  shows "\<exists>left right rc. nlj_left_row s' = Some left
      \<and> selected (nlj_right_join_columns s) 0 = Some rc
      \<and> match (nlj_left_join_columns s) (nlj_right_join_columns s) left right = Some True
      \<and> row = left @ take rc right @ drop (Suc rc) right"
proof -
  from assms obtain r_row r r_row' left right where
    nr: "it_next R (nlj_right s) = Some (r_row, r)"
    and w: "NestedLoopsJoin_while L R r_row (s\<lparr>nlj_right := r\<rparr>) = Some (r_row', s')"
    and l: "nlj_left_row s' = Some left" and rr: "r_row' = Some right"
    and j: "join_rows_if_match (nlj_right_join_columns s') left right = Some row"
    by (auto simp: NestedLoopsJoin_next_def split: Option.bind_splits option.splits)
  from NLJ_while_exit [OF w] l rr have
    c: "nlj_right_join_columns s' = nlj_right_join_columns s"
    and m: "match (nlj_left_join_columns s) (nlj_right_join_columns s) left right = Some True"
    by simp_all
  from m obtain rc where rc: "selected (nlj_right_join_columns s) 0 = Some rc"
    by (auto simp: match_def split: Option.bind_splits)
  from j c join_rows_if_match_eq [OF rc, of left right]
  have "row = left @ take rc right @ drop (Suc rc) right" by simp
  with l rc m show ?thesis by blast
qed

text \<open>
  C4. NestedLoopsJoin of the left rows (1,x), (2,y) with the right rows (1,p), (3,q), both
  joined on column 0, returns the one row (1,x,p) and then end-of-stream. Whenever
  \<^verbatim>\<open>NestedLoopsJoin::next\<close> returns a row, it is the current left row followed by the
  columns of a right row that matches it, without the right row's first join column.
\<close>

theorem NestedLoopsJoin_joined_row:
  "Option.bind
     (NestedLoopsJoin_new
        TableIterator_Iterator
        (TableIterator_new \<lparr>tbl_columns = [''k'', ''a''], tbl_rows = [[''1'', ''x''], [''2'', ''y'']]\<rparr>) [0]
        TableIterator_Iterator
        (TableIterator_new \<lparr>tbl_columns = [''k'', ''b''], tbl_rows = [[''1'', ''p''], [''3'', ''q'']]\<rparr>) [0])
     (\<lambda>s. map_option fst (run (NestedLoopsJoin_Iterator TableIterator_Iterator TableIterator_Iterator) s))
   = Some [[''1'', ''x'', ''p'']]
   \<and> (selected right_join_columns 0 = Some rc \<longrightarrow>
        join_rows_if_match right_join_columns left right
          = Some (left @ take rc right @ drop (Suc rc) right))
   \<and> (NestedLoopsJoin_next L R s = Some (Some row, s') \<longrightarrow>
        (\<exists>left right rc. nlj_left_row s' = Some left
           \<and> selected (nlj_right_join_columns s) 0 = Some rc
           \<and> match (nlj_left_join_columns s) (nlj_right_join_columns s) left right = Some True
           \<and> row = left @ take rc right @ drop (Suc rc) right))"
proof (intro conjI impI)
  show "Option.bind
     (NestedLoopsJoin_new
        TableIterator_Iterator
        (TableIterator_new \<lparr>tbl_columns = [''k'', ''a''], tbl_rows = [[''1'', ''x''], [''2'', ''y'']]\<rparr>) [0]
        TableIterator_Iterator
        (TableIterator_new \<lparr>tbl_columns = [''k'', ''b''], tbl_rows = [[''1'', ''p''], [''3'', ''q'']]\<rparr>) [0])
     (\<lambda>s. map_option fst (run (NestedLoopsJoin_Iterator TableIterator_Iterator TableIterator_Iterator) s))
   = Some [[''1'', ''x'', ''p'']]"
    by code_simp
next
  assume "selected right_join_columns 0 = Some rc"
  then show "join_rows_if_match right_join_columns left right
          = Some (left @ take rc right @ drop (Suc rc) right)"
    by (rule join_rows_if_match_eq)
next
  assume "NestedLoopsJoin_next L R s = Some (Some row, s')"
  then show "\<exists>left right rc. nlj_left_row s' = Some left
           \<and> selected (nlj_right_join_columns s) 0 = Some rc
           \<and> match (nlj_left_join_columns s) (nlj_right_join_columns s) left right = Some True
           \<and> row = left @ take rc right @ drop (Suc rc) right"
    by (rule NLJ_next_emits)
qed

theorem NestedLoopsJoin_joined_row_witness:
  "join_rows_if_match \<lparr>cs_n_columns = 3, cs_selected = [1]\<rparr> [4, 5] [6, 4, 7::int] = Some [4, 5, 6, 7]
   \<and> (\<exists>left right rc.
        nlj_left_row
          \<lparr>nlj_left = \<lparr>ti_table = \<lparr>tbl_columns = [''k'', ''a''], tbl_rows = [[4, 5::int]]\<rparr>,
                        ti_input = 1, ti_end = 1\<rparr>,
           nlj_right = \<lparr>ti_table = \<lparr>tbl_columns = [''a'', ''k'', ''b''], tbl_rows = [[6, 4, 7::int]]\<rparr>,
                         ti_input = 1, ti_end = 1\<rparr>,
           nlj_left_join_columns = \<lparr>cs_n_columns = 2, cs_selected = [0]\<rparr>,
           nlj_right_join_columns = \<lparr>cs_n_columns = 3, cs_selected = [1]\<rparr>,
           nlj_left_row = Some [4, 5::int]\<rparr> = Some left
        \<and> selected \<lparr>cs_n_columns = 3, cs_selected = [1]\<rparr> 0 = Some rc
        \<and> match \<lparr>cs_n_columns = 2, cs_selected = [0]\<rparr> \<lparr>cs_n_columns = 3, cs_selected = [1]\<rparr>
              left right = Some True
        \<and> [4, 5, 6, 7::int] = left @ take rc right @ drop (Suc rc) right)"
proof -
  let ?s = "\<lparr>nlj_left = \<lparr>ti_table = \<lparr>tbl_columns = [''k'', ''a''], tbl_rows = [[4, 5::int]]\<rparr>,
                        ti_input = 1, ti_end = 1\<rparr>,
           nlj_right = \<lparr>ti_table = \<lparr>tbl_columns = [''a'', ''k'', ''b''], tbl_rows = [[6, 4, 7::int]]\<rparr>,
                         ti_input = 0, ti_end = 1\<rparr>,
           nlj_left_join_columns = \<lparr>cs_n_columns = 2, cs_selected = [0]\<rparr>,
           nlj_right_join_columns = \<lparr>cs_n_columns = 3, cs_selected = [1]\<rparr>,
           nlj_left_row = Some [4, 5]\<rparr>"
  let ?s' = "\<lparr>nlj_left = \<lparr>ti_table = \<lparr>tbl_columns = [''k'', ''a''], tbl_rows = [[4, 5::int]]\<rparr>,
                        ti_input = 1, ti_end = 1\<rparr>,
           nlj_right = \<lparr>ti_table = \<lparr>tbl_columns = [''a'', ''k'', ''b''], tbl_rows = [[6, 4, 7::int]]\<rparr>,
                         ti_input = 1, ti_end = 1\<rparr>,
           nlj_left_join_columns = \<lparr>cs_n_columns = 2, cs_selected = [0]\<rparr>,
           nlj_right_join_columns = \<lparr>cs_n_columns = 3, cs_selected = [1]\<rparr>,
           nlj_left_row = Some [4, 5]\<rparr>"
  have h1: "selected \<lparr>cs_n_columns = 3, cs_selected = [1]\<rparr> 0 = Some 1"
    by (simp add: selected_def)
  have h2: "NestedLoopsJoin_next TableIterator_Iterator TableIterator_Iterator ?s
      = Some (Some [4, 5, 6, 7], ?s')"
    by code_simp
  from NestedLoopsJoin_joined_row [THEN conjunct2, THEN conjunct1, THEN mp, OF h1, of "[4, 5]" "[6, 4, 7::int]"]
    NestedLoopsJoin_joined_row [THEN conjunct2, THEN conjunct2, THEN mp, OF h2]
  show ?thesis by simp
qed

subsection \<open>Row widths: call sequences\<close>

lemma reach_trans: "reach I b c \<Longrightarrow> reach I a b \<Longrightarrow> reach I a c"
  by (induction rule: reach.induct) (auto intro: reach.intros)

lemma reach_next1: "it_next I s = Some (row, u) \<Longrightarrow> reach I s u"
  by (rule reach_next [OF reach_refl])

lemma reach_open1: "it_open I s = Some u \<Longrightarrow> reach I s u"
  by (rule reach_open [OF reach_refl])

lemma reach_close1: "reach I s (it_close I s)"
  by (rule reach_close [OF reach_refl])

lemma width_stableI:
  assumes "\<And>t. reach I s t \<Longrightarrow> it_n_columns I t = it_n_columns I s"
    "\<And>t row u. reach I s t \<Longrightarrow> it_next I t = Some (Some row, u) \<Longrightarrow> length row = it_n_columns I s"
  shows "width_stable I s"
  using assms unfolding width_stable_def by blast

lemma width_stable_n_columns:
  "width_stable I s \<Longrightarrow> reach I s t \<Longrightarrow> it_n_columns I t = it_n_columns I s"
  unfolding width_stable_def by blast

lemma width_stable_row:
  "width_stable I s \<Longrightarrow> reach I s t \<Longrightarrow> it_next I t = Some (Some row, u) \<Longrightarrow>
   length row = it_n_columns I s"
  unfolding width_stable_def by blast

subsection \<open>Row widths: the leaves\<close>

lemma TableIterator_reach:
  "reach TableIterator_Iterator s t \<Longrightarrow> ti_table t = ti_table s"
  by (induction rule: reach.induct)
     (auto simp: TableIterator_Iterator_def TableIterator_open_def TableIterator_next_def
        TableIterator_close_def split: if_splits)

lemma TableIterator_width_stable:
  assumes "\<forall>r \<in> set (tbl_rows (ti_table s)). length r = length (tbl_columns (ti_table s))"
  shows "width_stable TableIterator_Iterator s"
proof (rule width_stableI)
  fix t assume "reach TableIterator_Iterator s t"
  then show "it_n_columns TableIterator_Iterator t = it_n_columns TableIterator_Iterator s"
    by (simp add: TableIterator_reach TableIterator_Iterator_def TableIterator_n_columns_def)
next
  fix t row u
  assume r: "reach TableIterator_Iterator s t"
    and n: "it_next TableIterator_Iterator t = Some (Some row, u)"
  from n have "row \<in> set (tbl_rows (ti_table t))"
    by (auto simp: TableIterator_Iterator_def TableIterator_next_def split: if_splits)
  then show "length row = it_n_columns TableIterator_Iterator s"
    using assms TableIterator_reach [OF r]
    by (simp add: TableIterator_Iterator_def TableIterator_n_columns_def)
qed

lemma IndexScan_while_index:
  assumes "IndexScan_while t = Some y"
  shows "is_index (snd y) = is_index t
    \<and> (\<forall>row. fst y = Some row \<longrightarrow> row \<in> snd ` set (idx_entries (is_index t)))"
proof (rule IndexScan_while.raw_induct
    [where P = "\<lambda>t y. is_index (snd y) = is_index t
    \<and> (\<forall>row. fst y = Some row \<longrightarrow> row \<in> snd ` set (idx_entries (is_index t)))",
     OF _ assms], goal_cases)
  case (1 f t y)
  note IH = 1(1) and body = 1(2)
  show ?case
  proof (cases "\<exists>t'. f t' = Some y \<and> is_index t' = is_index t")
    case True
    then show ?thesis using IH by metis
  next
    case False
    then show ?thesis using body
      by (auto split: option.splits if_splits Option.bind_splits)
  qed
qed

lemma IndexScan_reach:
  "reach IndexScan_Iterator s t \<Longrightarrow> is_index t = is_index s"
proof (induction rule: reach.induct)
  case (reach_next s t row u)
  then show ?case using IndexScan_while_index [of t "(row, u)"]
    by (auto simp: IndexScan_Iterator_def IndexScan_next_def split: if_splits)
qed (auto simp: IndexScan_Iterator_def IndexScan_open_def IndexScan_close_def)

lemma IndexScan_width_stable:
  assumes "\<forall>e \<in> set (idx_entries (is_index s)). length (snd e) = idx_n_columns (is_index s)"
  shows "width_stable IndexScan_Iterator s"
proof (rule width_stableI)
  fix t assume "reach IndexScan_Iterator s t"
  then show "it_n_columns IndexScan_Iterator t = it_n_columns IndexScan_Iterator s"
    by (simp add: IndexScan_reach IndexScan_Iterator_def IndexScan_n_columns_def)
next
  fix t row u
  assume r: "reach IndexScan_Iterator s t"
    and n: "it_next IndexScan_Iterator t = Some (Some row, u)"
  from n have "IndexScan_while t = Some (Some row, u)"
    by (auto simp: IndexScan_Iterator_def IndexScan_next_def split: if_splits)
  from IndexScan_while_index [OF this] have "row \<in> snd ` set (idx_entries (is_index t))" by simp
  then show "length row = it_n_columns IndexScan_Iterator s"
    using assms IndexScan_reach [OF r]
    by (auto simp add: IndexScan_Iterator_def IndexScan_n_columns_def)
qed

subsection \<open>Row widths: Select, Unique and Project\<close>

lemma pull_ok:
  assumes "width_stable I c0" "reach I c0 c" "it_next I c = Some (row, c')"
  shows "reach I c0 c'" and "\<forall>r. row = Some r \<longrightarrow> length r = it_n_columns I c0"
  using assms by (auto intro: reach_next dest: width_stable_row)

lemma Select_while_width:
  assumes "Select_while I row s = Some y"
  shows "\<forall>c0. width_stable I c0 \<longrightarrow> reach I c0 (sel_input s) \<longrightarrow>
      (\<forall>r. row = Some r \<longrightarrow> length r = it_n_columns I c0) \<longrightarrow>
      reach I c0 (sel_input (snd y)) \<and> sel_predicate (snd y) = sel_predicate s
      \<and> (\<forall>r. fst y = Some r \<longrightarrow> length r = it_n_columns I c0)"
proof (rule Select_while.raw_induct
    [where P = "\<lambda>I row s y. \<forall>c0. width_stable I c0 \<longrightarrow> reach I c0 (sel_input s) \<longrightarrow>
      (\<forall>r. row = Some r \<longrightarrow> length r = it_n_columns I c0) \<longrightarrow>
      reach I c0 (sel_input (snd y)) \<and> sel_predicate (snd y) = sel_predicate s
      \<and> (\<forall>r. fst y = Some r \<longrightarrow> length r = it_n_columns I c0)",
     OF _ assms], goal_cases)
  case (1 f I row s y)
  note IH = 1(1) and body = 1(2)
  show ?case
  proof (intro allI impI)
    fix c0
    assume ws: "width_stable I c0" and r: "reach I c0 (sel_input s)"
      and w: "\<forall>r. row = Some r \<longrightarrow> length r = it_n_columns I c0"
    show "reach I c0 (sel_input (snd y)) \<and> sel_predicate (snd y) = sel_predicate s
      \<and> (\<forall>r. fst y = Some r \<longrightarrow> length r = it_n_columns I c0)"
    proof (cases "\<exists>row' c. it_next I (sel_input s) = Some (row', c)
        \<and> f I row' (s\<lparr>sel_input := c\<rparr>) = Some y")
      case True
      then obtain row' c where n: "it_next I (sel_input s) = Some (row', c)"
        and f: "f I row' (s\<lparr>sel_input := c\<rparr>) = Some y" by blast
      from IH [OF f, rule_format, of c0] pull_ok [OF ws r n] ws show ?thesis by simp
    next
      case False
      then show ?thesis using body r w
        by (auto split: option.splits if_splits Option.bind_splits)
    qed
  qed
qed

lemma width_stable_invariant:
  assumes i0: "Inv s0"
    and io: "\<And>t u. Inv t \<Longrightarrow> it_open J t = Some u \<Longrightarrow> Inv u"
    and inx: "\<And>t row u. Inv t \<Longrightarrow> it_next J t = Some (row, u) \<Longrightarrow>
           Inv u \<and> (\<forall>r. row = Some r \<longrightarrow> length r = n)"
    and ic: "\<And>t. Inv t \<Longrightarrow> Inv (it_close J t)"
    and nc: "\<And>t. Inv t \<Longrightarrow> it_n_columns J t = n"
  shows "width_stable J s0"
proof -
  have inv: "Inv t" if "reach J s0 t" for t
    using that i0
  proof (induction rule: reach.induct)
    case (reach_refl s)
    then show ?case .
  next
    case (reach_open s t u)
    then show ?case using io by blast
  next
    case (reach_next s t row u)
    then have "Inv t" by blast
    from inx [OF this reach_next.hyps(2)] show ?case by blast
  next
    case (reach_close s t)
    then show ?case using ic by blast
  qed
  show ?thesis
  proof (rule width_stableI)
    fix t assume "reach J s0 t"
    then have "Inv t" by (rule inv)
    then show "it_n_columns J t = it_n_columns J s0"
      using nc [of t] nc [OF i0] by simp
  next
    fix t row u assume r: "reach J s0 t" and n: "it_next J t = Some (Some row, u)"
    from r have "Inv t" by (rule inv)
    from inx [OF this n] nc [OF i0] show "length row = it_n_columns J s0" by simp
  qed
qed

lemma Select_width_stable:
  assumes "width_stable I c"
  shows "width_stable (Select_Iterator I) (Select_new c p)"
proof (rule width_stable_invariant
    [where Inv = "\<lambda>t. reach I c (sel_input t)" and n = "it_n_columns I c"], goal_cases)
  case 1
  show ?case by (simp add: Select_new_def reach_refl)
next
  case (2 t u)
  then show ?case
    by (auto simp: Select_Iterator_def Select_open_def split: Option.bind_splits
        intro: reach_open)
next
  case (3 t row u)
  from 3(2) obtain row0 c1 where n: "it_next I (sel_input t) = Some (row0, c1)"
    and w: "Select_while I row0 (t\<lparr>sel_input := c1\<rparr>) = Some (row, u)"
    by (auto simp: Select_Iterator_def Select_next_def split: Option.bind_splits)
  from Select_while_width [OF w, rule_format, of c] pull_ok [OF assms 3(1) n] assms
  show ?case by simp
next
  case (4 t)
  then show ?case by (auto simp: Select_Iterator_def Select_close_def intro: reach_close)
next
  case (5 t)
  then show ?case using width_stable_n_columns [OF assms]
    by (simp add: Select_Iterator_def Select_n_columns_def)
qed

lemma Unique_while_width:
  assumes "Unique_while I row s = Some y"
  shows "\<forall>c0. width_stable I c0 \<longrightarrow> reach I c0 (unq_input s) \<longrightarrow>
      (\<forall>r. row = Some r \<longrightarrow> length r = it_n_columns I c0) \<longrightarrow>
      reach I c0 (unq_input (snd y))
      \<and> (\<forall>r. fst y = Some r \<longrightarrow> length r = it_n_columns I c0)"
proof (rule Unique_while.raw_induct
    [where P = "\<lambda>I row s y. \<forall>c0. width_stable I c0 \<longrightarrow> reach I c0 (unq_input s) \<longrightarrow>
      (\<forall>r. row = Some r \<longrightarrow> length r = it_n_columns I c0) \<longrightarrow>
      reach I c0 (unq_input (snd y))
      \<and> (\<forall>r. fst y = Some r \<longrightarrow> length r = it_n_columns I c0)",
     OF _ assms], goal_cases)
  case (1 f I row s y)
  note IH = 1(1) and body = 1(2)
  show ?case
  proof (intro allI impI)
    fix c0
    assume ws: "width_stable I c0" and r: "reach I c0 (unq_input s)"
      and w: "\<forall>r. row = Some r \<longrightarrow> length r = it_n_columns I c0"
    show "reach I c0 (unq_input (snd y))
      \<and> (\<forall>r. fst y = Some r \<longrightarrow> length r = it_n_columns I c0)"
    proof (cases "\<exists>row' c. it_next I (unq_input s) = Some (row', c)
        \<and> f I row' (s\<lparr>unq_input := c\<rparr>) = Some y")
      case True
      then obtain row' c where n: "it_next I (unq_input s) = Some (row', c)"
        and f: "f I row' (s\<lparr>unq_input := c\<rparr>) = Some y" by blast
      from IH [OF f, rule_format, of c0] pull_ok [OF ws r n] ws show ?thesis by simp
    next
      case False
      then show ?thesis using body r w
        by (auto split: option.splits if_splits Option.bind_splits)
    qed
  qed
qed

lemma Unique_width_stable:
  assumes "width_stable I c"
  shows "width_stable (Unique_Iterator I) (Unique_new c)"
proof (rule width_stable_invariant
    [where Inv = "\<lambda>t. reach I c (unq_input t)" and n = "it_n_columns I c"], goal_cases)
  case 1
  show ?case by (simp add: Unique_new_def reach_refl)
next
  case (2 t u)
  then show ?case
    by (auto simp: Unique_Iterator_def Unique_open_def split: Option.bind_splits
        intro: reach_open)
next
  case (3 t row u)
  from 3(2) obtain row0 c1 where n: "it_next I (unq_input t) = Some (row0, c1)"
    and w: "Unique_while I row0 (t\<lparr>unq_input := c1\<rparr>) = Some (row, u)"
    by (auto simp: Unique_Iterator_def Unique_next_def split: Option.bind_splits)
  from Unique_while_width [OF w, rule_format, of c] pull_ok [OF assms 3(1) n] assms
  show ?case by simp
next
  case (4 t)
  then show ?case by (auto simp: Unique_Iterator_def Unique_close_def intro: reach_close)
next
  case (5 t)
  then show ?case using width_stable_n_columns [OF assms]
    by (simp add: Unique_Iterator_def Unique_n_columns_def)
qed

lemma for_upto_length:
  assumes "\<And>j a b. body j a = Some b \<Longrightarrow> length b = Suc (length a)"
  shows "for_upto i n body acc = Some r \<Longrightarrow> length r = length acc + (n - i)"
proof (induction "n - i" arbitrary: i acc)
  case 0
  then show ?case by (simp add: for_upto_done)
next
  case (Suc k)
  then have lt: "i < n" by simp
  from Suc.prems lt obtain acc' where b: "body i acc = Some acc'"
    and f: "for_upto (i + 1) n body acc' = Some r"
    by (subst (asm) for_upto.simps) (auto split: option.splits)
  have "length r = length acc' + (n - (i + 1))"
    using Suc.hyps(2) lt by (intro Suc.hyps(1) f) simp
  then show ?case using assms [OF b] lt by simp
qed

lemma Project_width_stable:
  assumes "width_stable I c" "Project_new I c cols = Some s"
  shows "width_stable (Project_Iterator I) s" and "Project_n_columns s = length cols"
proof -
  from assms(2) have s: "s = \<lparr>prj_input = c,
      prj_column_selector = \<lparr>cs_n_columns = it_n_columns I c, cs_selected = cols\<rparr>\<rparr>"
    by (auto simp: Project_new_def ColumnSelector_new_def split: Option.bind_splits if_splits)
  show "Project_n_columns s = length cols"
    by (simp add: s Project_n_columns_def n_selected_def)
  show "width_stable (Project_Iterator I) s"
  proof (rule width_stable_invariant
      [where Inv = "\<lambda>t. reach I c (prj_input t)
          \<and> prj_column_selector t = \<lparr>cs_n_columns = it_n_columns I c, cs_selected = cols\<rparr>"
         and n = "length cols"], goal_cases)
    case 1
    show ?case by (simp add: s reach_refl)
  next
    case (2 t u)
    then show ?case
      by (auto simp: Project_Iterator_def Project_open_def split: Option.bind_splits
          intro: reach_open)
  next
    case (3 t row u)
    from 3(2) obtain row0 c1 where n: "it_next I (prj_input t) = Some (row0, c1)"
      by (auto simp: Project_Iterator_def Project_next_def split: Option.bind_splits)
    have r: "reach I c c1" using 3(1) n by (auto intro: reach_next)
    have u: "prj_input u = c1 \<and> prj_column_selector u = prj_column_selector t"
      using 3(2) n
      by (auto simp: Project_Iterator_def Project_next_def split: Option.bind_splits option.splits)
    have "length r' = length cols" if "row = Some r'" for r'
    proof -
      from 3(2) n that obtain r0 where
        f: "for_upto 0 (n_selected (prj_column_selector t))
                (\<lambda>i projected.
                   Option.bind (selected (prj_column_selector t) i) (\<lambda>col.
                   Option.bind (at r0 col) (\<lambda>v. Some (projected @ [v]))))
                [] = Some r'"
        by (auto simp: Project_Iterator_def Project_next_def split: Option.bind_splits option.splits)
      have "length r' = length ([] :: 'b list) + (n_selected (prj_column_selector t) - 0)"
        by (rule for_upto_length [OF _ f]) (auto split: Option.bind_splits)
      then show ?thesis using 3(1) by (simp add: n_selected_def)
    qed
    then show ?case using r u 3(1) by simp
  next
    case (4 t)
    then show ?case by (auto simp: Project_Iterator_def Project_close_def intro: reach_close)
  next
    case (5 t)
    then show ?case
      by (simp add: Project_Iterator_def Project_n_columns_def n_selected_def)
  qed
qed

subsection \<open>Row widths: Sort\<close>

lemma Sort_open_while_width:
  assumes "Sort_open_while I row s = Some y"
  shows "\<forall>c0. width_stable I c0 \<longrightarrow> reach I c0 (srt_input s) \<longrightarrow>
      (\<forall>r. row = Some r \<longrightarrow> length r = it_n_columns I c0) \<longrightarrow>
      (\<forall>r \<in> set (srt_sorted s). length r = it_n_columns I c0) \<longrightarrow>
      reach I c0 (srt_input (snd y))
      \<and> (\<forall>r \<in> set (srt_sorted (snd y)). length r = it_n_columns I c0)"
proof (rule Sort_open_while.raw_induct
    [where P = "\<lambda>I row s y. \<forall>c0. width_stable I c0 \<longrightarrow> reach I c0 (srt_input s) \<longrightarrow>
      (\<forall>r. row = Some r \<longrightarrow> length r = it_n_columns I c0) \<longrightarrow>
      (\<forall>r \<in> set (srt_sorted s). length r = it_n_columns I c0) \<longrightarrow>
      reach I c0 (srt_input (snd y))
      \<and> (\<forall>r \<in> set (srt_sorted (snd y)). length r = it_n_columns I c0)",
     OF _ assms], goal_cases)
  case (1 f I row s y)
  note IH = 1(1) and body = 1(2)
  show ?case
  proof (intro allI impI)
    fix c0
    assume ws: "width_stable I c0" and r: "reach I c0 (srt_input s)"
      and w: "\<forall>r. row = Some r \<longrightarrow> length r = it_n_columns I c0"
      and a: "\<forall>r \<in> set (srt_sorted s). length r = it_n_columns I c0"
    show "reach I c0 (srt_input (snd y))
      \<and> (\<forall>r \<in> set (srt_sorted (snd y)). length r = it_n_columns I c0)"
    proof (cases row)
      case None
      then show ?thesis using body r a by auto
    next
      case (Some x)
      then obtain row' c where n: "it_next I (srt_input s) = Some (row', c)"
        and f: "f I row' (s\<lparr>srt_sorted := srt_sorted s @ [x], srt_input := c\<rparr>) = Some y"
        using body by (auto split: Option.bind_splits)
      from IH [OF f, rule_format, of c0] pull_ok [OF ws r n] ws a w Some
      show ?thesis by auto
    qed
  qed
qed

lemma std_sort_set:
  assumes "std_sort_contract std_sort" "std_sort (RowCompare cols) xs = Some ys"
  shows "set ys = set xs"
proof -
  from assms(1) RowCompare_swo [of cols]
  obtain zs where "std_sort (RowCompare cols) xs = Some zs" "mset zs = mset xs"
    unfolding std_sort_contract_def by blast
  with assms(2) show ?thesis by (auto dest: mset_eq_setD)
qed

lemma Sort_width_stable:
  assumes "width_stable I c" "std_sort_contract std_sort"
  shows "width_stable (Sort_Iterator std_sort I) (Sort_new c cols)"
proof (rule width_stable_invariant
    [where Inv = "\<lambda>t. reach I c (srt_input t)
        \<and> (\<forall>r \<in> set (srt_sorted t). length r = it_n_columns I c)"
       and n = "it_n_columns I c"], goal_cases)
  case 1
  show ?case by (simp add: Sort_new_def reach_refl)
next
  case (2 t u)
  from 2(2) obtain c1 row c2 row' s' rows where o: "it_open I (srt_input t) = Some c1"
    and n: "it_next I c1 = Some (row, c2)"
    and w: "Sort_open_while I row (t\<lparr>srt_input := c2, srt_sorted := []\<rparr>) = Some (row', s')"
    and e: "std_sort (RowCompare (srt_sort_columns s')) (srt_sorted s') = Some rows"
    and u: "u = s'\<lparr>srt_sorted := rows, srt_sorted_iterator := Some 0\<rparr>"
    by (auto simp: Sort_Iterator_def Sort_open_def split: Option.bind_splits)
  have r1: "reach I c c1" using 2(1) o by (auto intro: reach_open)
  from Sort_open_while_width [OF w, rule_format, of c] pull_ok [OF assms(1) r1 n] assms(1)
  have "reach I c (srt_input s') \<and> (\<forall>r \<in> set (srt_sorted s'). length r = it_n_columns I c)"
    by simp
  then show ?case using u std_sort_set [OF assms(2) e] by simp
next
  case (3 t row u)
  then show ?case
    by (auto simp: Sort_Iterator_def Sort_next_def split: option.splits if_splits)
next
  case (4 t)
  then show ?case by (auto simp: Sort_Iterator_def Sort_close_def intro: reach_close)
next
  case (5 t)
  then show ?case using width_stable_n_columns [OF assms(1)]
    by (simp add: Sort_Iterator_def Sort_n_columns_def)
qed

subsection \<open>Row widths: NestedLoopsJoin\<close>

lemma NLJ_while_width:
  assumes "NestedLoopsJoin_while L R r_row s = Some y"
  shows "\<forall>l0 r0. width_stable L l0 \<longrightarrow> width_stable R r0 \<longrightarrow>
      reach L l0 (nlj_left s) \<longrightarrow> reach R r0 (nlj_right s) \<longrightarrow>
      (\<forall>x. nlj_left_row s = Some x \<longrightarrow> length x = it_n_columns L l0) \<longrightarrow>
      (\<forall>x. r_row = Some x \<longrightarrow> length x = it_n_columns R r0) \<longrightarrow>
      reach L l0 (nlj_left (snd y)) \<and> reach R r0 (nlj_right (snd y))
      \<and> (\<forall>x. nlj_left_row (snd y) = Some x \<longrightarrow> length x = it_n_columns L l0)
      \<and> (\<forall>x. fst y = Some x \<longrightarrow> length x = it_n_columns R r0)"
proof (rule NestedLoopsJoin_while.raw_induct
    [where P = "\<lambda>L R r_row s y. \<forall>l0 r0. width_stable L l0 \<longrightarrow> width_stable R r0 \<longrightarrow>
      reach L l0 (nlj_left s) \<longrightarrow> reach R r0 (nlj_right s) \<longrightarrow>
      (\<forall>x. nlj_left_row s = Some x \<longrightarrow> length x = it_n_columns L l0) \<longrightarrow>
      (\<forall>x. r_row = Some x \<longrightarrow> length x = it_n_columns R r0) \<longrightarrow>
      reach L l0 (nlj_left (snd y)) \<and> reach R r0 (nlj_right (snd y))
      \<and> (\<forall>x. nlj_left_row (snd y) = Some x \<longrightarrow> length x = it_n_columns L l0)
      \<and> (\<forall>x. fst y = Some x \<longrightarrow> length x = it_n_columns R r0)",
     OF _ assms], goal_cases)
  case (1 f L R r_row s y)
  note IH = 1(1) and body = 1(2)
  show ?case
  proof (intro allI impI)
    fix l0 r0
    assume wl: "width_stable L l0" and wr: "width_stable R r0"
      and rl: "reach L l0 (nlj_left s)" and rr: "reach R r0 (nlj_right s)"
      and xl: "\<forall>x. nlj_left_row s = Some x \<longrightarrow> length x = it_n_columns L l0"
      and xr: "\<forall>x. r_row = Some x \<longrightarrow> length x = it_n_columns R r0"
    let ?goal = "reach L l0 (nlj_left (snd y)) \<and> reach R r0 (nlj_right (snd y))
      \<and> (\<forall>x. nlj_left_row (snd y) = Some x \<longrightarrow> length x = it_n_columns L l0)
      \<and> (\<forall>x. fst y = Some x \<longrightarrow> length x = it_n_columns R r0)"
    have stop: ?goal if "y = (r_row, s)"
      using that rl rr xl xr by simp
    show ?goal
    proof (cases "nlj_left_row s")
      case None
      then show ?thesis using body stop by simp
    next
      case (Some left_row)
      note lr = this
      show ?thesis
      proof (cases r_row)
        case None
        then show ?thesis using body lr stop by simp
      next
        case (Some right_row)
        then obtain m where
          m: "match (nlj_left_join_columns s) (nlj_right_join_columns s) left_row right_row = Some m"
          using body lr by (auto split: Option.bind_splits)
        show ?thesis
        proof (cases m)
          case True
          then show ?thesis using body lr Some m stop by simp
        next
          case False
          then obtain left_row' l where nl: "it_next L (nlj_left s) = Some (left_row', l)"
            using body lr Some m by (auto split: Option.bind_splits)
          note pl = pull_ok [OF wl rl nl]
          show ?thesis
          proof (cases left_row')
            case (Some x')
            then have f: "f L R r_row (s\<lparr>nlj_left := l, nlj_left_row := left_row'\<rparr>) = Some y"
              using body lr \<open>r_row = Some right_row\<close> m False nl by simp
            from IH [OF f, rule_format, of l0 r0] wl wr pl rr xr show ?thesis by simp
          next
            case None
            then obtain r_row' r where nr: "it_next R (nlj_right s) = Some (r_row', r)"
              using body lr Some m False nl by (auto split: Option.bind_splits)
            note pr = pull_ok [OF wr rr nr]
            show ?thesis
            proof (cases r_row')
              case None
              then have f: "f L R r_row' (s\<lparr>nlj_left := l, nlj_right := r, nlj_left_row := left_row'\<rparr>)
                  = Some y"
                using body lr \<open>r_row = Some right_row\<close> m False nl \<open>left_row' = None\<close> nr by simp
              from IH [OF f, rule_format, of l0 r0] wl wr pl pr \<open>left_row' = None\<close>
              show ?thesis by simp
            next
              case (Some y')
              then obtain l' left_row'' l'' where o: "it_open L (it_close L l) = Some l'"
                and n2: "it_next L l' = Some (left_row'', l'')"
                and f: "f L R r_row'
                    (s\<lparr>nlj_left := l'', nlj_right := r, nlj_left_row := left_row''\<rparr>) = Some y"
                using body lr \<open>r_row = Some right_row\<close> m False nl \<open>left_row' = None\<close> nr
                by (auto split: Option.bind_splits)
              have "reach L l0 l'" using pl(1) o by (auto intro: reach_open reach_close)
              note p2 = pull_ok [OF wl this n2]
              from IH [OF f, rule_format, of l0 r0] wl wr p2 pr show ?thesis by simp
            qed
          qed
        qed
      qed
    qed
  qed
qed

lemma unsigned_pred:
  assumes "1 \<le> (m::nat)" "m \<le> 4294967296"
  shows "(m + 4294967295) mod 4294967296 = m - 1"
proof -
  define k where "k = m - 1"
  have m: "m = k + 1" and k: "k < 4294967296" using assms by (simp_all add: k_def)
  have "(k + 1 + 4294967295) mod 4294967296 = (k + 4294967296) mod 4294967296" by simp
  also have "\<dots> = k mod 4294967296" by (rule mod_add_self2)
  also have "\<dots> = k" using k by simp
  finally show ?thesis by (simp add: m)
qed

lemma NLJ_next_unfold:
  assumes "NestedLoopsJoin_next L R t = Some (row, u)"
  shows "\<exists>r_row r1 r_row'. it_next R (nlj_right t) = Some (r_row, r1)
      \<and> NestedLoopsJoin_while L R r_row (t\<lparr>nlj_right := r1\<rparr>) = Some (r_row', u)
      \<and> (\<forall>nested. row = Some nested \<longrightarrow>
            (\<exists>left right. nlj_left_row u = Some left \<and> r_row' = Some right
               \<and> join_rows_if_match (nlj_right_join_columns u) left right = Some nested))"
  using assms
  by (auto simp: NestedLoopsJoin_next_def split: Option.bind_splits option.splits)

lemma NLJ_width_stable:
  assumes wl: "width_stable L l" and wr: "width_stable R r"
    and new: "NestedLoopsJoin_new L l lcols R r rcols = Some s"
    and bound: "it_n_columns L l + it_n_columns R r \<le> 4294967296"
  shows "width_stable (NestedLoopsJoin_Iterator L R) s"
proof (rule width_stable_invariant
    [where Inv = "\<lambda>t. reach L l (nlj_left t) \<and> reach R r (nlj_right t)
        \<and> nlj_left_join_columns t = \<lparr>cs_n_columns = it_n_columns L l, cs_selected = lcols\<rparr>
        \<and> nlj_right_join_columns t = \<lparr>cs_n_columns = it_n_columns R r, cs_selected = rcols\<rparr>
        \<and> (\<forall>x. nlj_left_row t = Some x \<longrightarrow> length x = it_n_columns L l)"
       and n = "(it_n_columns L l + it_n_columns R r + 4294967295) mod 4294967296"], goal_cases)
  case 1
  show ?case by (simp add: NLJ_new_fields(1) [OF new] reach_refl)
next
  case (2 t u)
  from 2(2) obtain l1 r1 left_row l2 where o: "it_open L (nlj_left t) = Some l1"
    "it_open R (nlj_right t) = Some r1" "it_next L l1 = Some (left_row, l2)"
    and u: "u = t\<lparr>nlj_left := l2, nlj_right := r1, nlj_left_row := left_row\<rparr>"
    by (auto simp: NestedLoopsJoin_Iterator_def NestedLoopsJoin_open_def split: Option.bind_splits)
  have "reach L l l1" "reach R r r1" using 2(1) o by (auto intro: reach_open)
  with pull_ok [OF wl _ o(3)] show ?case using u 2(1) by simp
next
  case (3 t row u)
  from 3(2) have "NestedLoopsJoin_next L R t = Some (row, u)"
    by (simp add: NestedLoopsJoin_Iterator_def)
  from NLJ_next_unfold [OF this] obtain r_row r1 r_row' where
    nr: "it_next R (nlj_right t) = Some (r_row, r1)"
    and w: "NestedLoopsJoin_while L R r_row (t\<lparr>nlj_right := r1\<rparr>) = Some (r_row', u)"
    and j: "\<forall>nested. row = Some nested \<longrightarrow>
            (\<exists>left right. nlj_left_row u = Some left \<and> r_row' = Some right
               \<and> join_rows_if_match (nlj_right_join_columns u) left right = Some nested)"
    by (elim exE conjE)
  note pr = pull_ok [OF wr _ nr]
  from NLJ_while_width [OF w, rule_format, of l r] wl wr 3(1) pr
  have i: "reach L l (nlj_left u)" "reach R r (nlj_right u)"
    "\<forall>x. nlj_left_row u = Some x \<longrightarrow> length x = it_n_columns L l"
    "\<forall>x. r_row' = Some x \<longrightarrow> length x = it_n_columns R r"
    by simp_all
  from NLJ_while_exit [OF w] 3(1) have
    c: "nlj_left_join_columns u = \<lparr>cs_n_columns = it_n_columns L l, cs_selected = lcols\<rparr>"
      "nlj_right_join_columns u = \<lparr>cs_n_columns = it_n_columns R r, cs_selected = rcols\<rparr>"
    and m: "\<forall>left right. nlj_left_row u = Some left \<longrightarrow> r_row' = Some right \<longrightarrow>
        match \<lparr>cs_n_columns = it_n_columns L l, cs_selected = lcols\<rparr>
              \<lparr>cs_n_columns = it_n_columns R r, cs_selected = rcols\<rparr> left right = Some True"
    by simp_all
  have "length nested = (it_n_columns L l + it_n_columns R r + 4294967295) mod 4294967296"
    if "row = Some nested" for nested
  proof -
    from j that obtain left right where lr: "nlj_left_row u = Some left" "r_row' = Some right"
      and jr: "join_rows_if_match (nlj_right_join_columns u) left right = Some nested"
      by blast
    from m lr obtain rc where rc: "selected \<lparr>cs_n_columns = it_n_columns R r, cs_selected = rcols\<rparr> 0 = Some rc"
      by (auto simp: match_def split: Option.bind_splits)
    then have "rc \<in> set rcols" by (auto simp: selected_def split: if_splits)
    then have lt: "rc < it_n_columns R r" using NLJ_new_fields(3) [OF new] by simp
    have len: "length left = it_n_columns L l" "length right = it_n_columns R r"
      using i lr by simp_all
    from jr c join_rows_if_match_eq [OF rc, of left right]
    have "nested = left @ take rc right @ drop (Suc rc) right" by simp
    then have "length nested = it_n_columns L l + it_n_columns R r - 1"
      using lt len by auto
    moreover have "(it_n_columns L l + it_n_columns R r + 4294967295) mod 4294967296
        = it_n_columns L l + it_n_columns R r - 1"
      using lt bound by (intro unsigned_pred) simp_all
    ultimately show ?thesis by simp
  qed
  then show ?case using i c by simp
next
  case (4 t)
  then show ?case
    by (auto simp: NestedLoopsJoin_Iterator_def NestedLoopsJoin_close_def intro: reach_close)
next
  case (5 t)
  then show ?case
    by (simp add: NestedLoopsJoin_Iterator_def NestedLoopsJoin_n_columns_def)
qed

lemma NLJ_n_columns_eq:
  assumes new: "NestedLoopsJoin_new L l lcols R r rcols = Some s" and "rcols \<noteq> []"
    and bound: "it_n_columns L l + it_n_columns R r \<le> 4294967296"
  shows "NestedLoopsJoin_n_columns s = it_n_columns L l + it_n_columns R r - 1"
proof -
  from assms(2) obtain c where "c \<in> set rcols" by (cases rcols) auto
  then have "1 \<le> it_n_columns L l + it_n_columns R r"
    using NLJ_new_fields(3) [OF new] by fastforce
  then show ?thesis using bound
    by (simp add: NLJ_new_fields(1) [OF new] NestedLoopsJoin_n_columns_def unsigned_pred)
qed

text \<open>
  C9. For each of the seven operators: from its construction on, over every sequence of
  \<^verbatim>\<open>open\<close>, \<^verbatim>\<open>next\<close> and \<^verbatim>\<open>close\<close> calls, \<^verbatim>\<open>n_columns()\<close> keeps one value and every row
  that \<^verbatim>\<open>next()\<close> returns has that many columns, provided the same holds of its children
  (for the leaves: the rows of the table have as many columns as the table, and the
  data rows of the index have \<^verbatim>\<open>n_columns()\<close> columns). Project's width is the number
  of selected columns, and NestedLoopsJoin's is left width + right width - 1 (the sum
  fitting \<^verbatim>\<open>unsigned\<close>).
\<close>

theorem n_columns_matches_rows:
  "((\<forall>r \<in> set (tbl_rows table). length r = length (tbl_columns table)) \<longrightarrow>
      width_stable TableIterator_Iterator (TableIterator_new table))
   \<and> ((\<forall>e \<in> set (idx_entries index). length (snd e) = idx_n_columns index) \<longrightarrow>
      width_stable IndexScan_Iterator (IndexScan_new index lo hi))
   \<and> (width_stable Is cs \<longrightarrow> width_stable (Select_Iterator Is) (Select_new cs p))
   \<and> (width_stable Ip cp \<and> Project_new Ip cp cols = Some prj \<longrightarrow>
        width_stable (Project_Iterator Ip) prj \<and> Project_n_columns prj = length cols)
   \<and> (width_stable L l \<and> width_stable R r
        \<and> NestedLoopsJoin_new L l lcols R r rcols = Some nlj
        \<and> it_n_columns L l + it_n_columns R r \<le> 4294967296 \<longrightarrow>
        width_stable (NestedLoopsJoin_Iterator L R) nlj
        \<and> (rcols \<noteq> [] \<longrightarrow>
              NestedLoopsJoin_n_columns nlj = it_n_columns L l + it_n_columns R r - 1))
   \<and> (width_stable Io co \<and> std_sort_contract std_sort \<longrightarrow>
        width_stable (Sort_Iterator std_sort Io) (Sort_new co sort_columns))
   \<and> (width_stable Iu cu \<longrightarrow> width_stable (Unique_Iterator Iu) (Unique_new cu))"
proof (intro conjI impI)
  assume "\<forall>r \<in> set (tbl_rows table). length r = length (tbl_columns table)"
  then show "width_stable TableIterator_Iterator (TableIterator_new table)"
    by (intro TableIterator_width_stable) (simp add: TableIterator_new_def)
next
  assume "\<forall>e \<in> set (idx_entries index). length (snd e) = idx_n_columns index"
  then show "width_stable IndexScan_Iterator (IndexScan_new index lo hi)"
    by (intro IndexScan_width_stable) (simp add: IndexScan_new_def)
next
  assume "width_stable Is cs"
  then show "width_stable (Select_Iterator Is) (Select_new cs p)" by (rule Select_width_stable)
next
  assume a: "width_stable Ip cp \<and> Project_new Ip cp cols = Some prj"
  then have a1: "width_stable Ip cp" and a2: "Project_new Ip cp cols = Some prj" by simp_all
  show "width_stable (Project_Iterator Ip) prj" by (rule Project_width_stable(1) [OF a1 a2])
  show "Project_n_columns prj = length cols" by (rule Project_width_stable(2) [OF a1 a2])
next
  assume a: "width_stable L l \<and> width_stable R r
        \<and> NestedLoopsJoin_new L l lcols R r rcols = Some nlj
        \<and> it_n_columns L l + it_n_columns R r \<le> 4294967296"
  then have a1: "width_stable L l" and a2: "width_stable R r"
    and a3: "NestedLoopsJoin_new L l lcols R r rcols = Some nlj"
    and a4: "it_n_columns L l + it_n_columns R r \<le> 4294967296" by simp_all
  show "width_stable (NestedLoopsJoin_Iterator L R) nlj"
    by (rule NLJ_width_stable [OF a1 a2 a3 a4])
  assume a5: "rcols \<noteq> []"
  show "NestedLoopsJoin_n_columns nlj = it_n_columns L l + it_n_columns R r - 1"
    by (rule NLJ_n_columns_eq [OF a3 a5 a4])
next
  assume "width_stable Io co \<and> std_sort_contract std_sort"
  then have a1: "width_stable Io co" and a2: "std_sort_contract std_sort" by simp_all
  show "width_stable (Sort_Iterator std_sort Io) (Sort_new co sort_columns)"
    by (rule Sort_width_stable [OF a1 a2])
next
  assume "width_stable Iu cu"
  then show "width_stable (Unique_Iterator Iu) (Unique_new cu)" by (rule Unique_width_stable)
qed

theorem n_columns_matches_rows_witness:
  "width_stable TableIterator_Iterator
     (TableIterator_new \<lparr>tbl_columns = [''k'', ''a''], tbl_rows = [[1, 2], [3, 4::int]]\<rparr>)
   \<and> width_stable IndexScan_Iterator
       (IndexScan_new \<lparr>idx_entries = [([1], [5, 6::int])], idx_n_columns = 2\<rparr> (Some [1]) None)
   \<and> width_stable (Select_Iterator TableIterator_Iterator)
       (Select_new (TableIterator_new \<lparr>tbl_columns = [''k'', ''a''], tbl_rows = [[1, 2], [3, 4::int]]\<rparr>)
          (\<lambda>row. True))
   \<and> width_stable (Project_Iterator TableIterator_Iterator)
       \<lparr>prj_input = TableIterator_new \<lparr>tbl_columns = [''k'', ''a''], tbl_rows = [[1, 2], [3, 4::int]]\<rparr>,
        prj_column_selector = \<lparr>cs_n_columns = 2, cs_selected = [1]\<rparr>\<rparr>
   \<and> Project_n_columns
       \<lparr>prj_input = TableIterator_new \<lparr>tbl_columns = [''k'', ''a''], tbl_rows = [[1, 2], [3, 4::int]]\<rparr>,
        prj_column_selector = \<lparr>cs_n_columns = 2, cs_selected = [1]\<rparr>\<rparr> = 1
   \<and> width_stable (NestedLoopsJoin_Iterator TableIterator_Iterator TableIterator_Iterator)
       \<lparr>nlj_left = TableIterator_new \<lparr>tbl_columns = [''k'', ''a''], tbl_rows = [[1, 2], [3, 4::int]]\<rparr>,
        nlj_right = TableIterator_new \<lparr>tbl_columns = [''k'', ''a''], tbl_rows = [[1, 2], [3, 4::int]]\<rparr>,
        nlj_left_join_columns = \<lparr>cs_n_columns = 2, cs_selected = [0]\<rparr>,
        nlj_right_join_columns = \<lparr>cs_n_columns = 2, cs_selected = [0]\<rparr>,
        nlj_left_row = None\<rparr>
   \<and> NestedLoopsJoin_n_columns
       \<lparr>nlj_left = TableIterator_new \<lparr>tbl_columns = [''k'', ''a''], tbl_rows = [[1, 2], [3, 4::int]]\<rparr>,
        nlj_right = TableIterator_new \<lparr>tbl_columns = [''k'', ''a''], tbl_rows = [[1, 2], [3, 4::int]]\<rparr>,
        nlj_left_join_columns = \<lparr>cs_n_columns = 2, cs_selected = [0]\<rparr>,
        nlj_right_join_columns = \<lparr>cs_n_columns = 2, cs_selected = [0]\<rparr>,
        nlj_left_row = (None :: int Row option)\<rparr> = 3
   \<and> width_stable
       (Sort_Iterator
          (\<lambda>lt xs. Some (sort_key (\<lambda>x. length (filter (\<lambda>y. lt y x) xs)) xs))
          TableIterator_Iterator)
       (Sort_new (TableIterator_new \<lparr>tbl_columns = [''k'', ''a''], tbl_rows = [[1, 2], [3, 4::int]]\<rparr>) [0])
   \<and> width_stable (Unique_Iterator TableIterator_Iterator)
       (Unique_new (TableIterator_new \<lparr>tbl_columns = [''k'', ''a''], tbl_rows = [[1, 2], [3, 4::int]]\<rparr>))"
proof -
  let ?T = "\<lparr>tbl_columns = [''k'', ''a''], tbl_rows = [[1, 2], [3, 4::int]]\<rparr>"
  let ?X = "\<lparr>idx_entries = [([1], [5, 6::int])], idx_n_columns = 2\<rparr>"
  let ?TI = "TableIterator_Iterator :: (int TableIterator, int) Iterator"
  note c1 = n_columns_matches_rows [THEN conjunct1]
  note c2 = n_columns_matches_rows [THEN conjunct2, THEN conjunct1]
  note c3 = n_columns_matches_rows [THEN conjunct2, THEN conjunct2, THEN conjunct1]
  note c4 = n_columns_matches_rows [THEN conjunct2, THEN conjunct2, THEN conjunct2, THEN conjunct1]
  note c5 = n_columns_matches_rows [THEN conjunct2, THEN conjunct2, THEN conjunct2, THEN conjunct2,
      THEN conjunct1]
  note c6 = n_columns_matches_rows [THEN conjunct2, THEN conjunct2, THEN conjunct2, THEN conjunct2,
      THEN conjunct2, THEN conjunct1]
  note c7 = n_columns_matches_rows [THEN conjunct2, THEN conjunct2, THEN conjunct2, THEN conjunct2,
      THEN conjunct2, THEN conjunct2]
  have t: "\<forall>r \<in> set (tbl_rows ?T). length r = length (tbl_columns ?T)" by simp
  have w: "width_stable ?TI (TableIterator_new ?T)" by (rule c1 [THEN mp, OF t])
  have x: "\<forall>e \<in> set (idx_entries ?X). length (snd e) = idx_n_columns ?X" by simp
  have wx: "width_stable IndexScan_Iterator (IndexScan_new ?X (Some [1]) None)"
    by (rule c2 [THEN mp, OF x])
  have ws: "width_stable (Select_Iterator ?TI) (Select_new (TableIterator_new ?T) (\<lambda>row. True))"
    by (rule c3 [THEN mp, OF w])
  have pn: "Project_new ?TI (TableIterator_new ?T) [1]
      = Some \<lparr>prj_input = TableIterator_new ?T,
               prj_column_selector = \<lparr>cs_n_columns = 2, cs_selected = [1]\<rparr>\<rparr>"
    by (simp add: Project_new_def ColumnSelector_new_def TableIterator_Iterator_def
        TableIterator_n_columns_def TableIterator_new_def)
  note wp = c4 [THEN mp, OF conjI [OF w pn]]
  have nn: "NestedLoopsJoin_new ?TI (TableIterator_new ?T) [0] ?TI (TableIterator_new ?T) [0]
      = Some \<lparr>nlj_left = TableIterator_new ?T, nlj_right = TableIterator_new ?T,
               nlj_left_join_columns = \<lparr>cs_n_columns = 2, cs_selected = [0]\<rparr>,
               nlj_right_join_columns = \<lparr>cs_n_columns = 2, cs_selected = [0]\<rparr>,
               nlj_left_row = None\<rparr>"
    by (simp add: NestedLoopsJoin_new_def ColumnSelector_new_def n_selected_def
        TableIterator_Iterator_def TableIterator_n_columns_def TableIterator_new_def)
  have b: "it_n_columns ?TI (TableIterator_new ?T) + it_n_columns ?TI (TableIterator_new ?T)
      \<le> 4294967296"
    by (simp add: TableIterator_Iterator_def TableIterator_n_columns_def TableIterator_new_def)
  note wj = c5 [THEN mp, OF conjI [OF w conjI [OF w conjI [OF nn b]]]]
  have nc: "it_n_columns ?TI (TableIterator_new ?T) = 2"
    by (simp add: TableIterator_Iterator_def TableIterator_n_columns_def TableIterator_new_def)
  have wo: "width_stable
      (Sort_Iterator
         (\<lambda>lt xs. Some (sort_key (\<lambda>x. length (filter (\<lambda>y. lt y x) xs)) xs)) ?TI)
      (Sort_new (TableIterator_new ?T) [0])"
    by (rule c6 [THEN mp, OF conjI [OF w sort_by_rank_conforms]])
  have wu: "width_stable (Unique_Iterator ?TI) (Unique_new (TableIterator_new ?T))"
    by (rule c7 [THEN mp, OF w])
  from w wx ws wp wj nc wo wu show ?thesis by simp
qed

subsection \<open>Select does not reclaim the rows it rejects\<close>

lemma Select_while_owned_result:
  assumes "Select_while_owned I row s log = Some y"
  shows "Select_while I row s = Some (fst y, fst (snd y))
    \<and> (\<forall>r. Reclaimed r \<in> set (snd (snd y)) \<longrightarrow> Reclaimed r \<in> set log)"
proof (rule Select_while_owned.raw_induct
    [where P = "\<lambda>I row s log y. Select_while I row s = Some (fst y, fst (snd y))
    \<and> (\<forall>r. Reclaimed r \<in> set (snd (snd y)) \<longrightarrow> Reclaimed r \<in> set log)",
     OF _ assms], goal_cases)
  case (1 f I row s log y)
  note IH = 1(1) and body = 1(2)
  show ?case
  proof (cases "\<exists>row' c. it_next I (sel_input s) = Some (row', c)
      \<and> (\<exists>r. row = Some r \<and> \<not> sel_predicate s r)
      \<and> f I row' (s\<lparr>sel_input := c\<rparr>) (pulled row' log) = Some y")
    case True
    then obtain row' c r where n: "it_next I (sel_input s) = Some (row', c)"
      and r: "row = Some r" "\<not> sel_predicate s r"
      and f: "f I row' (s\<lparr>sel_input := c\<rparr>) (pulled row' log) = Some y" by blast
    from IH [OF f] have "Select_while I row' (s\<lparr>sel_input := c\<rparr>) = Some (fst y, fst (snd y))"
      and "\<forall>r. Reclaimed r \<in> set (snd (snd y)) \<longrightarrow> Reclaimed r \<in> set (pulled row' log)"
      by simp_all
    then show ?thesis using n r
      by (auto simp: Select_while.simps [of I "Some r"] pulled_def split: option.splits)
  next
    case False
    then show ?thesis using body
      by (auto simp: Select_while.simps [of I row] split: option.splits if_splits Option.bind_splits)
  qed
qed

lemma Select_next_owned_never_reclaims:
  assumes "Select_next_owned I s = Some (row, s', log)"
  shows "Select_next I s = Some (row, s')" and "Reclaimed r \<notin> set log"
proof -
  from assms obtain row0 c where n: "it_next I (sel_input s) = Some (row0, c)"
    and w: "Select_while_owned I row0 (s\<lparr>sel_input := c\<rparr>) (pulled row0 []) = Some (row, s', log)"
    by (auto simp: Select_next_owned_def split: Option.bind_splits)
  from Select_while_owned_result [OF w] n show "Select_next I s = Some (row, s')"
    by (simp add: Select_next_def)
  from Select_while_owned_result [OF w] show "Reclaimed r \<notin> set log"
    by (auto simp: pulled_def split: option.splits)
qed

text \<open>
  C6 at the failing input. Select with the predicate "column 0 > 5" over a Project of
  column 0 of a table with the rows (1), (6): the call of \<^verbatim>\<open>next\<close> returns (6), as
  \<open>Select_next\<close> does; the row (1) that Project built was pulled, rejected and neither
  returned nor reclaimed.
\<close>

theorem Select_leaks_rejected_row:
  "Select_next_owned (Project_Iterator TableIterator_Iterator)
     (Select_new
        \<lparr>prj_input = \<lparr>ti_table = \<lparr>tbl_columns = [''c0''], tbl_rows = [[1], [6::int]]\<rparr>,
                       ti_input = 0, ti_end = 2\<rparr>,
         prj_column_selector = \<lparr>cs_n_columns = 1, cs_selected = [0]\<rparr>\<rparr>
        (\<lambda>row. case at row 0 of Some v \<Rightarrow> v > 5 | None \<Rightarrow> False))
   = Some (Some [6],
       Select_new
        \<lparr>prj_input = \<lparr>ti_table = \<lparr>tbl_columns = [''c0''], tbl_rows = [[1], [6::int]]\<rparr>,
                       ti_input = 2, ti_end = 2\<rparr>,
         prj_column_selector = \<lparr>cs_n_columns = 1, cs_selected = [0]\<rparr>\<rparr>
        (\<lambda>row. case at row 0 of Some v \<Rightarrow> v > 5 | None \<Rightarrow> False),
       [Pulled [1], Pulled [6], Returned [6]])
   \<and> leaked [Pulled [1], Pulled [6], Returned [6::int]] = [[1]]
   \<and> Select_next (Project_Iterator TableIterator_Iterator)
     (Select_new
        \<lparr>prj_input = \<lparr>ti_table = \<lparr>tbl_columns = [''c0''], tbl_rows = [[1], [6::int]]\<rparr>,
                       ti_input = 0, ti_end = 2\<rparr>,
         prj_column_selector = \<lparr>cs_n_columns = 1, cs_selected = [0]\<rparr>\<rparr>
        (\<lambda>row. case at row 0 of Some v \<Rightarrow> v > 5 | None \<Rightarrow> False))
   = Some (Some [6],
       Select_new
        \<lparr>prj_input = \<lparr>ti_table = \<lparr>tbl_columns = [''c0''], tbl_rows = [[1], [6::int]]\<rparr>,
                       ti_input = 2, ti_end = 2\<rparr>,
         prj_column_selector = \<lparr>cs_n_columns = 1, cs_selected = [0]\<rparr>\<rparr>
        (\<lambda>row. case at row 0 of Some v \<Rightarrow> v > 5 | None \<Rightarrow> False))"
  by (simp add: Select_next_owned_def Select_next_def Select_new_def
      Select_while_owned.simps Select_while.simps pulled_def leaked_def
      Project_Iterator_def Project_next_def TableIterator_Iterator_def TableIterator_next_def
      n_selected_def selected_def at_def for_upto.simps)

end
